theory Spec2Isabelle
  imports Main "HOL-Library.Char_ord" "HOL-Library.List_Lexorder"
    "HOL-Library.Product_Lexorder" "HOL-Library.Multiset"
begin

section \<open>Python values used by the models\<close>

text \<open>
  Python strings are modelled as \<open>string\<close> (byte lists), so the model covers ASCII
  input. Python integers are unbounded and are modelled as \<open>int\<close>. Every exception the
  modelled functions can raise is a value of \<open>error\<close>.
\<close>

datatype error = ValueError | TypeError | AttributeError | ValidationError

text \<open>The values a JSON filter-options dict holds: \<open>None\<close>, an integer or a string.\<close>

datatype pyval = PNone | PInt int | PStr string

definition is_digit :: "char \<Rightarrow> bool" where
  "is_digit c = (CHR ''0'' \<le> c \<and> c \<le> CHR ''9'')"

definition digit_val :: "char \<Rightarrow> int" where
  "digit_val c = int (of_char c) - 48"

text \<open>The characters that \<open>int()\<close> strips from both ends of an ASCII string: tab,
  line feed, vertical tab, form feed, carriage return and space.\<close>

definition is_space :: "char \<Rightarrow> bool" where
  "is_space c = (c \<in> {CHR 0x09, CHR 0x0A, CHR 0x0B, CHR 0x0C, CHR 0x0D, CHR 0x20})"

definition strip :: "string \<Rightarrow> string" where
  "strip s = rev (dropWhile is_space (rev (dropWhile is_space s)))"

text \<open>Decimal digits, with single underscores allowed between two digits.\<close>

fun digits_val :: "int \<Rightarrow> string \<Rightarrow> int option" where
  "digits_val acc [] = Some acc"
| "digits_val acc [c] = (if is_digit c then Some (10 * acc + digit_val c) else None)"
| "digits_val acc (c # d # cs) =
     (if is_digit c then digits_val (10 * acc + digit_val c) (d # cs)
      else if c = CHR ''_'' \<and> is_digit d then digits_val acc (d # cs)
      else None)"

text \<open>
  \<open>int(s)\<close> for a string: \<open>None\<close> stands for the \<open>ValueError\<close> it raises, also for
  a text of more than 4300 digits (the default limit of integer string conversion).
\<close>

definition py_int :: "string \<Rightarrow> int option" where
  "py_int s =
     (let t = strip s;
          neg = (case t of [] \<Rightarrow> False | c # _ \<Rightarrow> c = CHR ''-'');
          u = (case t of [] \<Rightarrow> [] | c # r \<Rightarrow> if c = CHR ''-'' \<or> c = CHR ''+'' then r else t)
      in case u of
           [] \<Rightarrow> None
         | c # _ \<Rightarrow>
             if is_digit c \<and> length (filter is_digit u) \<le> 4300
             then map_option (\<lambda>v. if neg then - v else v) (digits_val 0 u)
             else None)"

text \<open>\<open>s.split(':')\<close>: the pieces between the colons, always at least one piece.\<close>

fun split_colon :: "string \<Rightarrow> string list" where
  "split_colon [] = [[]]"
| "split_colon (c # cs) =
     (if c = CHR '':'' then [] # split_colon cs
      else (case split_colon cs of [] \<Rightarrow> [[c]] | p # ps \<Rightarrow> (c # p) # ps))"

definition digit_char :: "nat \<Rightarrow> char" where
  "digit_char n = char_of (48 + n)"

fun str_nat :: "nat \<Rightarrow> string" where
  "str_nat n = (if n < 10 then [digit_char n] else str_nat (n div 10) @ [digit_char (n mod 10)])"

declare str_nat.simps [simp del]

text \<open>\<open>str(n)\<close> and the format \<open>{n:02d}\<close> for an integer.\<close>

definition str_int :: "int \<Rightarrow> string" where
  "str_int n = (if n < 0 then CHR ''-'' # str_nat (nat (- n)) else str_nat (nat n))"

definition fmt_02d :: "int \<Rightarrow> string" where
  "fmt_02d n = (if 0 \<le> n \<and> n < 10 then CHR ''0'' # str_int n else str_int n)"

text \<open>
  \<open>str.upper()\<close> on ASCII text. The models keep the calls the source makes; the
  Unicode cases of Python's \<open>upper\<close> are outside the byte-string model.
\<close>

definition upper_char :: "char \<Rightarrow> char" where
  "upper_char c = (if CHR ''a'' \<le> c \<and> c \<le> CHR ''z'' then char_of (of_char c - (32::nat)) else c)"

definition upper :: "string \<Rightarrow> string" where
  "upper s = map upper_char s"

section \<open>Time blocks and class sections (models/clase.py)\<close>

datatype DayOfWeek = MONDAY | TUESDAY | WEDNESDAY | THURSDAY | FRIDAY | SATURDAY | SUNDAY

fun day_value :: "DayOfWeek \<Rightarrow> string" where
  "day_value MONDAY = ''L''"
| "day_value TUESDAY = ''M''"
| "day_value WEDNESDAY = ''W''"
| "day_value THURSDAY = ''J''"
| "day_value FRIDAY = ''V''"
| "day_value SATURDAY = ''S''"
| "day_value SUNDAY = ''D''"

text \<open>
  \<open>BloqueHorario._time_to_minutes\<close>: \<open>hours, minutes = map(int, time_str.split(':'))\<close>
  raises \<open>ValueError\<close> unless there are exactly two pieces and both are integers.
\<close>

definition time_to_minutes :: "string \<Rightarrow> error + int" where
  "time_to_minutes time_str =
     (case split_colon time_str of
        [h, m] \<Rightarrow>
          (case py_int h of
             None \<Rightarrow> Inl ValueError
           | Some hours \<Rightarrow>
               (case py_int m of
                  None \<Rightarrow> Inl ValueError
                | Some minutes \<Rightarrow> Inr (hours * 60 + minutes)))
      | _ \<Rightarrow> Inl ValueError)"

text \<open>
  The field pattern \<open>^([01]?[0-9]|2[0-3]):[0-5][0-9]$\<close> that pydantic checks on the
  \<open>start\<close> and \<open>end\<close> fields of \<open>BloqueHorario\<close> and \<open>Franja\<close>.
\<close>

definition time_pattern :: "string \<Rightarrow> bool" where
  "time_pattern s =
     (case s of
        [h, c, m1, m2] \<Rightarrow>
          is_digit h \<and> c = CHR '':'' \<and> CHR ''0'' \<le> m1 \<and> m1 \<le> CHR ''5'' \<and> is_digit m2
      | [h1, h2, c, m1, m2] \<Rightarrow>
          (((h1 = CHR ''0'' \<or> h1 = CHR ''1'') \<and> is_digit h2)
             \<or> (h1 = CHR ''2'' \<and> CHR ''0'' \<le> h2 \<and> h2 \<le> CHR ''3''))
          \<and> c = CHR '':'' \<and> CHR ''0'' \<le> m1 \<and> m1 \<le> CHR ''5'' \<and> is_digit m2
      | _ \<Rightarrow> False)"

text \<open>
  The minutes of a field that has passed the pattern. On such a string
  \<open>_time_to_minutes\<close> cannot raise (lemma \<open>time_pattern_parses\<close>), so the reading
  is a plain integer.
\<close>

definition minutes_of :: "string \<Rightarrow> int" where
  "minutes_of s = (case time_to_minutes s of Inr n \<Rightarrow> n | Inl _ \<Rightarrow> 0)"

record BloqueHorario =
  day_b :: DayOfWeek
  start_b :: string
  end_b :: string

definition get_start_minutes :: "BloqueHorario \<Rightarrow> int" where
  "get_start_minutes b = minutes_of (start_b b)"

definition get_end_minutes :: "BloqueHorario \<Rightarrow> int" where
  "get_end_minutes b = minutes_of (end_b b)"

text \<open>
  The constructor \<open>BloqueHorario(day=..., start=..., end=...)\<close>: the two patterns, then
  the validator \<open>validate_time_order\<close>. Any failure is pydantic's validation error.
\<close>

definition mk_bloque :: "DayOfWeek \<Rightarrow> string \<Rightarrow> string \<Rightarrow> error + BloqueHorario" where
  "mk_bloque d s e =
     (if \<not> time_pattern s \<or> \<not> time_pattern e then Inl ValidationError
      else if minutes_of e \<le> minutes_of s then Inl ValidationError
      else Inr \<lparr>day_b = d, start_b = s, end_b = e\<rparr>)"

definition overlaps_with :: "BloqueHorario \<Rightarrow> BloqueHorario \<Rightarrow> bool" where
  "overlaps_with self other =
     (if day_b self \<noteq> day_b other then False
      else \<not> (get_end_minutes self \<le> get_start_minutes other
               \<or> get_end_minutes other \<le> get_start_minutes self))"

record Clase =
  materia_code :: string
  class_code :: string
  schedule :: "BloqueHorario list"
  professor :: "string option"
  location :: "string option"

definition conflicts_with :: "Clase \<Rightarrow> Clase \<Rightarrow> bool" where
  "conflicts_with self other =
     list_ex (\<lambda>block. list_ex (\<lambda>other_block. overlaps_with block other_block) (schedule other))
       (schedule self)"

definition conflicts_with_blocks :: "Clase \<Rightarrow> BloqueHorario list \<Rightarrow> bool" where
  "conflicts_with_blocks self blocks =
     list_ex (\<lambda>block. list_ex (\<lambda>blocked. overlaps_with block blocked) blocks) (schedule self)"

section \<open>Preferences and combinations (models/horario.py)\<close>

datatype FranjaStatus = BLOCKED | PREFERRED

record Franja =
  day_f :: DayOfWeek
  start_f :: string
  end_f :: string
  status_f :: FranjaStatus

definition to_bloque :: "Franja \<Rightarrow> error + BloqueHorario" where
  "to_bloque self = mk_bloque (day_f self) (start_f self) (end_f self)"

record HorarioCombination =
  comb_id :: string
  clases :: "Clase list"
  total_credits_c :: int
  free_days :: int
  gaps_count :: int
  gaps_minutes :: int
  preferred_slots_used :: int
  earliest_start :: string
  latest_end :: string

text \<open>
  \<open>days_used\<close> is a dict from the day letter to the blocks of that day, in insertion
  order: an association list. \<open>add_block\<close> is one pass of the collecting loop.
\<close>

definition add_block :: "BloqueHorario \<Rightarrow> (string \<times> BloqueHorario list) list \<Rightarrow>
    (string \<times> BloqueHorario list) list" where
  "add_block block days_used =
     (let day_val = day_value (day_b block)
      in if day_val \<notin> set (map fst days_used)
         then days_used @ [(day_val, [block])]
         else map (\<lambda>(d, bs). if d = day_val then (d, bs @ [block]) else (d, bs)) days_used)"

definition collect_days :: "Clase list \<Rightarrow> (string \<times> BloqueHorario list) list" where
  "collect_days cs = fold add_block (concat (map schedule cs)) []"

text \<open>The gaps between consecutive blocks of one sorted day: their count and minutes.\<close>

fun day_gaps :: "BloqueHorario list \<Rightarrow> int \<times> int \<Rightarrow> int \<times> int" where
  "day_gaps (b1 # b2 # bs) (total_gaps, total_gap_minutes) =
     (let gap = get_start_minutes b2 - get_end_minutes b1
      in day_gaps (b2 # bs)
           (if gap > 0 then (total_gaps + 1, total_gap_minutes + gap)
            else (total_gaps, total_gap_minutes)))"
| "day_gaps _ acc = acc"

text \<open>One pass of the loop over \<open>days_used.items()\<close>; the state is
  \<open>(total_gaps, total_gap_minutes, earliest, latest)\<close>.\<close>

definition day_step :: "string \<times> BloqueHorario list \<Rightarrow> int \<times> int \<times> int \<times> int \<Rightarrow>
    int \<times> int \<times> int \<times> int" where
  "day_step entry st =
     (case st of (total_gaps, total_gap_minutes, earliest, latest) \<Rightarrow>
        let sorted_blocks = sort_key get_start_minutes (snd entry);
            earliest' = (if sorted_blocks \<noteq> []
                         then min earliest (get_start_minutes (hd sorted_blocks)) else earliest);
            latest' = (if sorted_blocks \<noteq> []
                       then max latest (get_end_minutes (last sorted_blocks)) else latest);
            (g, gm) = day_gaps sorted_blocks (total_gaps, total_gap_minutes)
        in (g, gm, earliest', latest'))"

text \<open>The test of the innermost loop: the block lies inside the preferred slot.\<close>

definition within_pref :: "BloqueHorario \<Rightarrow> BloqueHorario \<Rightarrow> bool" where
  "within_pref block pref_block =
     (day_b block = day_b pref_block
      \<and> get_start_minutes block \<ge> get_start_minutes pref_block
      \<and> get_end_minutes block \<le> get_end_minutes pref_block)"

text \<open>
  The loop over \<open>preferred_franjas\<close> for one block, with its \<open>break\<close>: every
  preference reached is converted by \<open>to_bloque\<close>, which may raise.
\<close>

fun block_in_preferred :: "BloqueHorario \<Rightarrow> Franja list \<Rightarrow> error + bool" where
  "block_in_preferred block [] = Inr False"
| "block_in_preferred block (pref # prefs) =
     (case to_bloque pref of
        Inl e \<Rightarrow> Inl e
      | Inr pref_block \<Rightarrow>
          if within_pref block pref_block then Inr True
          else block_in_preferred block prefs)"

fun count_preferred :: "BloqueHorario list \<Rightarrow> Franja list \<Rightarrow> int \<Rightarrow> error + int" where
  "count_preferred [] preferred_franjas preferred_count = Inr preferred_count"
| "count_preferred (block # blocks) preferred_franjas preferred_count =
     (case block_in_preferred block preferred_franjas of
        Inl e \<Rightarrow> Inl e
      | Inr hit \<Rightarrow>
          count_preferred blocks preferred_franjas
            (if hit then preferred_count + 1 else preferred_count))"

text \<open>
  \<open>HorarioCombination.calculate_metrics\<close>. The argument \<open>franjas\<close> is a list; the
  source's default \<open>None\<close> behaves as the empty list (both are falsy). The method
  mutates \<open>self\<close>; the model returns the updated combination, or the error raised.
  \<open>base_metrics\<close> is the part of the body before \<open>if franjas:\<close>.
\<close>

definition base_metrics :: "HorarioCombination \<Rightarrow> HorarioCombination" where
  "base_metrics self =
     (let days_used = collect_days (clases self);
          weekdays = [''L'', ''M'', ''W'', ''J'', ''V'', ''S''];
          fd = int (length (filter (\<lambda>d. d \<notin> set (map fst days_used)) weekdays))
      in case fold day_step days_used (0, 0, 24 * 60, 0) of
           (total_gaps, total_gap_minutes, earliest, latest) \<Rightarrow>
             self\<lparr>free_days := fd, gaps_count := total_gaps,
                  gaps_minutes := total_gap_minutes,
                  earliest_start := fmt_02d (earliest div 60) @ '':'' @ fmt_02d (earliest mod 60),
                  latest_end := fmt_02d (latest div 60) @ '':'' @ fmt_02d (latest mod 60)\<rparr>)"

definition calculate_metrics :: "HorarioCombination \<Rightarrow> Franja list \<Rightarrow> error + HorarioCombination" where
  "calculate_metrics self franjas =
     (if clases self = [] then Inr self
      else if franjas = [] then Inr (base_metrics self)
      else
        (case count_preferred (concat (map schedule (clases self)))
                (filter (\<lambda>f. status_f f = PREFERRED) franjas) 0 of
           Inl e \<Rightarrow> Inl e
         | Inr preferred_count \<Rightarrow>
             Inr ((base_metrics self)\<lparr>preferred_slots_used := preferred_count\<rparr>)))"

section \<open>Schedule service (services/schedule_service.py)\<close>

text \<open>
  \<open>itertools.product(*class_options)\<close>: the tuples in the order the library yields
  them, the last position changing fastest.
\<close>

fun itertools_product :: "'a list list \<Rightarrow> 'a list list" where
  "itertools_product [] = [[]]"
| "itertools_product (xs # xss) = concat (map (\<lambda>x. map (Cons x) (itertools_product xss)) xs)"

text \<open>The two nested loops with their \<open>break\<close>s: some later section conflicts.\<close>

fun has_internal_conflict :: "Clase list \<Rightarrow> bool" where
  "has_internal_conflict [] = False"
| "has_internal_conflict (clase1 # rest) =
     (if list_ex (\<lambda>clase2. conflicts_with clase1 clase2) rest then True
      else has_internal_conflict rest)"

definition has_blocked_conflict :: "Clase list \<Rightarrow> BloqueHorario list \<Rightarrow> bool" where
  "has_blocked_conflict combo_list blocked_slots =
     list_ex (\<lambda>clase. conflicts_with_blocks clase blocked_slots) combo_list"

text \<open>\<open>[f.to_bloque() for f in franjas if f.status == FranjaStatus.BLOCKED]\<close>\<close>

fun blocked_slots_of :: "Franja list \<Rightarrow> error + BloqueHorario list" where
  "blocked_slots_of [] = Inr []"
| "blocked_slots_of (f # fs) =
     (if status_f f = BLOCKED
      then (case to_bloque f of
              Inl e \<Rightarrow> Inl e
            | Inr b \<Rightarrow> (case blocked_slots_of fs of Inl e \<Rightarrow> Inl e | Inr bs \<Rightarrow> Inr (b # bs)))
      else blocked_slots_of fs)"

record GenerationResult =
  combinations :: "HorarioCombination list"
  total_generated :: int
  total_possible :: int
  total_checked :: int
  warning :: "string option"

text \<open>
  The dict \<open>clases_by_materia\<close> is an association list in insertion order with
  distinct keys; looking every key up again gives the values in that order.
\<close>

definition class_options :: "(string \<times> Clase list) list \<Rightarrow> Clase list list" where
  "class_options clases_by_materia = map snd clases_by_materia"

definition calc_total_possible :: "Clase list list \<Rightarrow> int" where
  "calc_total_possible opts =
     fold (\<lambda>options acc. acc * (if options \<noteq> [] then int (length options) else 1)) opts 1"

text \<open>\<open>max_combinations and len(valid_combinations) >= max_combinations\<close>:
  \<open>None\<close> and \<open>0\<close> are falsy.\<close>

definition limit_reached :: "int option \<Rightarrow> HorarioCombination list \<Rightarrow> bool" where
  "limit_reached max_combinations valid_combinations =
     (case max_combinations of
        None \<Rightarrow> False
      | Some n \<Rightarrow> n \<noteq> 0 \<and> int (length valid_combinations) \<ge> n)"

text \<open>
  The new \<open>HorarioCombination\<close>: the fields not given take their defaults. The
  source sums \<open>materia_code\<close> over the sections for which it is an \<open>int\<close>; the field
  is a string, so the sum is empty and \<open>total_credits\<close> is 0.
\<close>

definition new_combination :: "string \<Rightarrow> Clase list \<Rightarrow> HorarioCombination" where
  "new_combination i combo_list =
     \<lparr>comb_id = i, clases = combo_list, total_credits_c = 0, free_days = 0, gaps_count = 0,
      gaps_minutes = 0, preferred_slots_used = 0, earliest_start = ''23:59'',
      latest_end = ''00:00''\<rparr>"

text \<open>
  The loop over the tuples. \<open>uuid4 k\<close> is the text of the \<open>k\<close>-th random identifier
  drawn (one per accepted tuple); it is the only source of randomness. The state is
  \<open>valid_combinations\<close> and \<open>checked\<close>.
\<close>

fun gen_loop :: "(nat \<Rightarrow> string) \<Rightarrow> Franja list \<Rightarrow> BloqueHorario list \<Rightarrow> int option \<Rightarrow>
    Clase list list \<Rightarrow> HorarioCombination list \<Rightarrow> int \<Rightarrow>
    error + (HorarioCombination list \<times> int)" where
  "gen_loop uuid4 franjas blocked_slots max_combinations [] valid_combinations checked =
     Inr (valid_combinations, checked)"
| "gen_loop uuid4 franjas blocked_slots max_combinations (combo # rest) valid_combinations checked =
     (if limit_reached max_combinations valid_combinations
      then Inr (valid_combinations, checked + 1)
      else if has_internal_conflict combo
      then gen_loop uuid4 franjas blocked_slots max_combinations rest valid_combinations (checked + 1)
      else if has_blocked_conflict combo blocked_slots
      then gen_loop uuid4 franjas blocked_slots max_combinations rest valid_combinations (checked + 1)
      else (case calculate_metrics
                   (new_combination (take 8 (uuid4 (length valid_combinations))) combo) franjas of
              Inl e \<Rightarrow> Inl e
            | Inr combination \<Rightarrow>
                gen_loop uuid4 franjas blocked_slots max_combinations rest
                  (valid_combinations @ [combination]) (checked + 1)))"

definition warning_text :: "int \<Rightarrow> string" where
  "warning_text n =
     ''Large number of possible combinations ('' @ str_int n
       @ ''). Generation may take a while.''"

definition generate_combinations :: "(nat \<Rightarrow> string) \<Rightarrow> (string \<times> Clase list) list \<Rightarrow>
    Franja list \<Rightarrow> int option \<Rightarrow> error + GenerationResult" where
  "generate_combinations uuid4 clases_by_materia franjas max_combinations =
     (case blocked_slots_of franjas of
        Inl e \<Rightarrow> Inl e
      | Inr blocked_slots \<Rightarrow>
          let opts = class_options clases_by_materia;
              possible = calc_total_possible opts;
              warn = (if possible > 1000 then Some (warning_text possible) else None)
          in (case gen_loop uuid4 franjas blocked_slots max_combinations
                     (itertools_product opts) [] 0 of
                Inl e \<Rightarrow> Inl e
              | Inr (valid_combinations, checked) \<Rightarrow>
                  Inr \<lparr>combinations = valid_combinations,
                       total_generated = int (length valid_combinations),
                       total_possible = possible,
                       total_checked = checked,
                       warning = warn\<rparr>))"

subsection \<open>Filtering and sorting\<close>

text \<open>Truthiness of a dict value, as \<open>if filters['earliest_start']\<close> tests it.\<close>

fun truthy :: "pyval \<Rightarrow> bool" where
  "truthy PNone = False"
| "truthy (PInt n) = (n \<noteq> 0)"
| "truthy (PStr s) = (s \<noteq> [])"

text \<open>
  One of the three numeric filters: skipped when the key is absent or \<open>None\<close>. The
  comparison of an \<open>int\<close> field with a string raises \<open>TypeError\<close>, at the first
  element of the list if there is one.
\<close>

definition filter_by_int :: "(string \<Rightarrow> pyval option) \<Rightarrow> string \<Rightarrow>
    (HorarioCombination \<Rightarrow> int \<Rightarrow> bool) \<Rightarrow> HorarioCombination list \<Rightarrow>
    error + HorarioCombination list" where
  "filter_by_int filters key keep filtered =
     (case filters key of
        None \<Rightarrow> Inr filtered
      | Some PNone \<Rightarrow> Inr filtered
      | Some (PInt n) \<Rightarrow> Inr (filter (\<lambda>c. keep c n) filtered)
      | Some (PStr s) \<Rightarrow> if filtered = [] then Inr [] else Inl TypeError)"

fun map_err :: "('a \<Rightarrow> error + 'b) \<Rightarrow> 'a list \<Rightarrow> error + 'b list" where
  "map_err f [] = Inr []"
| "map_err f (x # xs) =
     (case f x of
        Inl e \<Rightarrow> Inl e
      | Inr y \<Rightarrow> (case map_err f xs of Inl e \<Rightarrow> Inl e | Inr ys \<Rightarrow> Inr (y # ys)))"

text \<open>
  One of the two time filters: skipped when the key is absent or falsy. The bound is
  parsed first; then every combination's own time string is parsed in turn. A
  non-string bound has no \<open>split\<close>.
\<close>

definition filter_by_time :: "(string \<Rightarrow> pyval option) \<Rightarrow> string \<Rightarrow>
    (HorarioCombination \<Rightarrow> string) \<Rightarrow> (int \<Rightarrow> int \<Rightarrow> bool) \<Rightarrow> HorarioCombination list \<Rightarrow>
    error + HorarioCombination list" where
  "filter_by_time filters key field keep filtered =
     (case filters key of
        None \<Rightarrow> Inr filtered
      | Some v \<Rightarrow>
          if \<not> truthy v then Inr filtered
          else (case v of
                  PStr s \<Rightarrow>
                    (case time_to_minutes s of
                       Inl e \<Rightarrow> Inl e
                     | Inr bound \<Rightarrow>
                         (case map_err (\<lambda>c. time_to_minutes (field c)) filtered of
                            Inl e \<Rightarrow> Inl e
                          | Inr ts \<Rightarrow>
                              Inr (map snd (filter (\<lambda>(t, c). keep t bound) (zip ts filtered)))))
                | _ \<Rightarrow> Inl AttributeError))"

text \<open>
  \<open>list.sort(key=..., reverse=...)\<close>: the keys of all elements are computed first
  (an exception from the key function ends the sort), then the list is sorted stably;
  with \<open>reverse\<close> the list is reversed, sorted and reversed again, which keeps equal
  keys in their original order.
\<close>

definition py_sort :: "('a \<Rightarrow> 'k::linorder) \<Rightarrow> bool \<Rightarrow> 'a list \<Rightarrow> 'a list" where
  "py_sort key reverse xs = (if reverse then rev (sort_key key (rev xs)) else sort_key key xs)"

definition list_sort :: "('a \<Rightarrow> error + int) \<Rightarrow> bool \<Rightarrow> 'a list \<Rightarrow> error + 'a list" where
  "list_sort key reverse xs =
     (case map_err key xs of
        Inl e \<Rightarrow> Inl e
      | Inr ks \<Rightarrow> Inr (map snd (py_sort fst reverse (zip ks xs))))"

text \<open>
  \<open>sort_key_map\<close>. The two gap lambdas read the variable \<open>reverse\<close> of the enclosing
  function when they are called, that is during the sort; \<open>reverse\<close> here is the value
  the variable has then.
\<close>

definition sort_key_map :: "bool \<Rightarrow> string \<Rightarrow> (HorarioCombination \<Rightarrow> error + int) option" where
  "sort_key_map reverse k =
     (if k = ''free_days'' then Some (\<lambda>c. Inr (free_days c))
      else if k = ''gaps_count''
      then Some (\<lambda>c. Inr (if reverse then - gaps_count c else gaps_count c))
      else if k = ''gaps_minutes''
      then Some (\<lambda>c. Inr (if reverse then - gaps_minutes c else gaps_minutes c))
      else if k = ''preferred_slots'' then Some (\<lambda>c. Inr (preferred_slots_used c))
      else if k = ''earliest_start'' then Some (\<lambda>c. time_to_minutes (earliest_start c))
      else if k = ''latest_end'' then Some (\<lambda>c. time_to_minutes (latest_end c))
      else None)"

definition sort_combinations :: "(string \<Rightarrow> pyval option) \<Rightarrow> HorarioCombination list \<Rightarrow>
    error + HorarioCombination list" where
  "sort_combinations filters filtered =
     (let sort_by = (case filters ''sort_by'' of None \<Rightarrow> PStr ''free_days'' | Some v \<Rightarrow> v);
          sort_order = (case filters ''sort_order'' of None \<Rightarrow> PStr ''desc'' | Some v \<Rightarrow> v);
          reverse0 = (sort_order = PStr ''desc'')
      in case sort_by of
           PStr k \<Rightarrow>
             let reverse = (if k = ''gaps_count'' \<or> k = ''gaps_minutes''
                            then sort_order = PStr ''asc'' else reverse0)
             in (case sort_key_map reverse k of
                   None \<Rightarrow> Inr filtered
                 | Some key \<Rightarrow> list_sort key reverse filtered)
         | _ \<Rightarrow> Inr filtered)"

definition apply_filters :: "HorarioCombination list \<Rightarrow> (string \<Rightarrow> pyval option) \<Rightarrow>
    error + HorarioCombination list" where
  "apply_filters combs filters =
     (case filter_by_int filters ''min_free_days'' (\<lambda>c n. free_days c \<ge> n) combs of
        Inl e \<Rightarrow> Inl e
      | Inr f1 \<Rightarrow>
     (case filter_by_int filters ''max_gaps'' (\<lambda>c n. gaps_count c \<le> n) f1 of
        Inl e \<Rightarrow> Inl e
      | Inr f2 \<Rightarrow>
     (case filter_by_int filters ''max_gap_minutes'' (\<lambda>c n. gaps_minutes c \<le> n) f2 of
        Inl e \<Rightarrow> Inl e
      | Inr f3 \<Rightarrow>
     (case filter_by_time filters ''earliest_start'' earliest_start (\<lambda>t b. t \<ge> b) f3 of
        Inl e \<Rightarrow> Inl e
      | Inr f4 \<Rightarrow>
          filter_by_time filters ''latest_end'' latest_end (\<lambda>t b. t \<le> b) f4))))"

definition filter_combinations :: "HorarioCombination list \<Rightarrow> (string \<Rightarrow> pyval option) \<Rightarrow>
    error + HorarioCombination list" where
  "filter_combinations combs filters =
     (case apply_filters combs filters of
        Inl e \<Rightarrow> Inl e
      | Inr filtered \<Rightarrow> sort_combinations filters filtered)"

section \<open>Courses and the catalog (models/materia.py)\<close>

datatype MateriaStatus = PENDING | ENROLLED | PASSED | FAILED | DROPPED | BLOCKED_M

text \<open>
  The fields \<open>color\<close> and \<open>grade\<close> of the source are read by none of the functions
  modelled here and are left out.
\<close>

record Materia =
  code :: string
  name :: string
  credits :: int
  semester :: int
  prerequisites :: "string list"
  corequisites :: "string list"
  status :: MateriaStatus

record Pensum =
  materias :: "Materia list"
  pensum_name :: string
  total_credits :: int

definition get_materia :: "Pensum \<Rightarrow> string \<Rightarrow> Materia option" where
  "get_materia self c = find (\<lambda>m. code m = upper c) (materias self)"

section \<open>Pensum service (services/pensum_service.py)\<close>

text \<open>
  A \<open>defaultdict(list)\<close> as an association list: \<open>d[k]\<close> reads the empty list for a
  missing key and \<open>d[k].append(v)\<close> creates the key when it is missing.
\<close>

definition dict_get :: "(string \<times> string list) list \<Rightarrow> string \<Rightarrow> string list" where
  "dict_get d k = (case map_of d k of None \<Rightarrow> [] | Some vs \<Rightarrow> vs)"

definition dict_append :: "(string \<times> string list) list \<Rightarrow> string \<Rightarrow> string \<Rightarrow>
    (string \<times> string list) list" where
  "dict_append d k v =
     (if k \<in> set (map fst d)
      then map (\<lambda>(k', vs). if k' = k then (k', vs @ [v]) else (k', vs)) d
      else d @ [(k, [v])])"

subsection \<open>Cycle detection\<close>

text \<open>
  The set \<open>codes\<close> of the source is iterated three times (membership, the initial
  queue, the remaining nodes). The order in which Python iterates a set of strings is
  not fixed by the program, so the models take it as the argument \<open>codes\<close>: a list
  without repetition of the course codes of the catalog.
\<close>

definition codes_of :: "string list \<Rightarrow> Pensum \<Rightarrow> bool" where
  "codes_of codes pensum = (distinct codes \<and> set codes = set (map code (materias pensum)))"

text \<open>The state of the building loop is the pair \<open>(graph, in_degree)\<close>; \<open>in_degree\<close>
  is a \<open>defaultdict(int)\<close>, a function that is 0 where nothing was stored.\<close>

definition add_edge :: "string list \<Rightarrow> string \<Rightarrow> string \<Rightarrow>
    (string \<times> string list) list \<times> (string \<Rightarrow> int) \<Rightarrow>
    (string \<times> string list) list \<times> (string \<Rightarrow> int)" where
  "add_edge codes mcode prereq st =
     (if prereq \<in> set codes
      then (dict_append (fst st) prereq mcode, (snd st)(mcode := snd st mcode + 1))
      else st)"

definition build_graph :: "string list \<Rightarrow> Pensum \<Rightarrow>
    (string \<times> string list) list \<times> (string \<Rightarrow> int)" where
  "build_graph codes pensum =
     fold (\<lambda>materia st.
             fold (add_edge codes (code materia)) (prerequisites materia @ corequisites materia) st)
       (materias pensum) ([], \<lambda>_. 0)"

text \<open>The loop over \<open>graph[current]\<close>; the state is \<open>(in_degree, queue)\<close>.\<close>

fun relax :: "string list \<Rightarrow> (string \<Rightarrow> int) \<times> string list \<Rightarrow> (string \<Rightarrow> int) \<times> string list" where
  "relax [] st = st"
| "relax (neighbor # ns) (in_degree, queue) =
     (let in_degree' = in_degree(neighbor := in_degree neighbor - 1)
      in relax ns (in_degree', if in_degree' neighbor = 0 then queue @ [neighbor] else queue))"

text \<open>The \<open>while queue\<close> loop; it returns the final \<open>in_degree\<close> and \<open>sorted_count\<close>.\<close>

function kahn :: "(string \<times> string list) list \<Rightarrow> string list \<Rightarrow> (string \<Rightarrow> int) \<Rightarrow> int \<Rightarrow>
    (string \<Rightarrow> int) \<times> int" where
  "kahn g [] in_degree sorted_count = (in_degree, sorted_count)"
| "kahn g (current # queue) in_degree sorted_count =
     (case relax (dict_get g current) (in_degree, queue) of
        (in_degree', queue') \<Rightarrow> kahn g queue' in_degree' (sorted_count + 1))"
  by pat_completeness auto

definition detect_circular_dependencies :: "string list \<Rightarrow> Pensum \<Rightarrow> string list option" where
  "detect_circular_dependencies codes pensum =
     (case build_graph codes pensum of
        (g, in_degree0) \<Rightarrow>
          (case kahn g (filter (\<lambda>c. in_degree0 c = 0) codes) in_degree0 0 of
             (in_degree, sorted_count) \<Rightarrow>
               if sorted_count \<noteq> int (length codes)
               then (let remaining = filter (\<lambda>c. in_degree c > 0) codes
                     in if remaining \<noteq> [] then Some (take 5 remaining) else None)
               else None))"

text \<open>The messages of \<open>validate_pensum_structure\<close>, one constructor for each format
  string, holding the values the string is built from.\<close>

datatype structure_error =
    PrerequisiteNotFound string string
  | CorequisiteNotFound string string
  | PrerequisiteOrder string string int int
  | CircularDependency "string list"

record ValidationResult =
  valid :: bool
  errors :: "structure_error list"

definition materia_errors :: "Pensum \<Rightarrow> Materia \<Rightarrow> structure_error list" where
  "materia_errors pensum materia =
     map (PrerequisiteNotFound (code materia))
       (filter (\<lambda>prereq. prereq \<notin> set (map code (materias pensum))) (prerequisites materia))
     @ map (CorequisiteNotFound (code materia))
         (filter (\<lambda>coreq. coreq \<notin> set (map code (materias pensum))) (corequisites materia))
     @ concat (map (\<lambda>prereq.
                 case get_materia pensum prereq of
                   None \<Rightarrow> []
                 | Some prereq_materia \<Rightarrow>
                     if semester prereq_materia \<ge> semester materia
                     then [PrerequisiteOrder (code materia) prereq
                             (semester prereq_materia) (semester materia)]
                     else [])
               (prerequisites materia))"

definition validate_pensum_structure :: "string list \<Rightarrow> Pensum \<Rightarrow> ValidationResult" where
  "validate_pensum_structure codes pensum =
     (let errs = concat (map (materia_errors pensum) (materias pensum));
          errs' = (case detect_circular_dependencies codes pensum of
                     None \<Rightarrow> errs
                   | Some cycle \<Rightarrow> if cycle \<noteq> [] then errs @ [CircularDependency cycle] else errs)
      in \<lparr>valid = (errs' = []), errors = errs'\<rparr>)"

subsection \<open>Loss simulation\<close>

datatype service_error = CourseNotFound string

record MateriaInfo =
  info_code :: string
  info_name :: string
  info_semester :: int
  info_credits :: int

record LossResult =
  lost_course :: MateriaInfo
  directly_blocked :: "MateriaInfo list"
  indirectly_blocked :: "MateriaInfo list"
  corequisite_affected :: "MateriaInfo list"
  total_blocked_courses :: int
  total_blocked_credits :: int

definition materia_info :: "Materia \<Rightarrow> MateriaInfo" where
  "materia_info m =
     \<lparr>info_code = code m, info_name = name m, info_semester = semester m, info_credits = credits m\<rparr>"

definition prereq_dependents_of :: "Pensum \<Rightarrow> (string \<times> string list) list" where
  "prereq_dependents_of pensum =
     fold (\<lambda>m d. fold (\<lambda>prereq d'. dict_append d' prereq (code m)) (prerequisites m) d)
       (materias pensum) []"

definition coreq_dependents_of :: "Pensum \<Rightarrow> (string \<times> string list) list" where
  "coreq_dependents_of pensum =
     fold (\<lambda>m d. fold (\<lambda>coreq d'. dict_append d' coreq (code m)) (corequisites m) d)
       (materias pensum) []"

text \<open>
  A loop \<open>for dep in ...: if dep not in visited: blocked.append(dep); visited.add(dep);
  queue.append(dep)\<close>; the state is \<open>(blocked, visited, queue)\<close>. The first-level loop
  and the inner loop of the search are both of this form.
\<close>

fun block_deps :: "string list \<Rightarrow> string list \<times> string set \<times> string list \<Rightarrow>
    string list \<times> string set \<times> string list" where
  "block_deps [] st = st"
| "block_deps (dep # deps) (blocked, visited, queue) =
     (if dep \<notin> visited
      then block_deps deps (blocked @ [dep], insert dep visited, queue @ [dep])
      else block_deps deps (blocked, visited, queue))"

text \<open>The corequisite loop: the course is marked visited but not queued.\<close>

fun affect_coreqs :: "string list \<Rightarrow> string list \<times> string set \<Rightarrow> string list \<times> string set" where
  "affect_coreqs [] st = st"
| "affect_coreqs (dep # deps) (coreq_affected, visited) =
     (if dep \<notin> visited
      then affect_coreqs deps (coreq_affected @ [dep], insert dep visited)
      else affect_coreqs deps (coreq_affected, visited))"

text \<open>The \<open>while queue\<close> loop of the search; it returns \<open>indirectly_blocked\<close>.\<close>

function bfs_indirect :: "(string \<times> string list) list \<Rightarrow> string list \<Rightarrow> string set \<Rightarrow>
    string list \<Rightarrow> string list" where
  "bfs_indirect prereq_dependents [] visited indirectly = indirectly"
| "bfs_indirect prereq_dependents (current # queue) visited indirectly =
     (case block_deps (dict_get prereq_dependents current) (indirectly, visited, queue) of
        (indirectly', visited', queue') \<Rightarrow>
          bfs_indirect prereq_dependents queue' visited' indirectly')"
  by pat_completeness auto

definition get_materia_info :: "Pensum \<Rightarrow> string list \<Rightarrow> MateriaInfo list" where
  "get_materia_info pensum codes =
     sort_key (\<lambda>x. (info_semester x, info_code x))
       (concat (map (\<lambda>c. case get_materia pensum c of None \<Rightarrow> [] | Some m \<Rightarrow> [materia_info m])
                  codes))"

definition simulate_course_loss :: "string \<Rightarrow> Pensum \<Rightarrow> service_error + LossResult" where
  "simulate_course_loss materia_code0 pensum =
     (let mcode = upper materia_code0
      in case get_materia pensum mcode of
           None \<Rightarrow> Inl (CourseNotFound mcode)
         | Some materia \<Rightarrow>
             (case block_deps (dict_get (prereq_dependents_of pensum) mcode) ([], {mcode}, []) of
                (directly, visited1, queue) \<Rightarrow>
             (case affect_coreqs (dict_get (coreq_dependents_of pensum) mcode) ([], visited1) of
                (coreq_affected, visited2) \<Rightarrow>
                  let indirectly = bfs_indirect (prereq_dependents_of pensum) queue visited2 []
                  in Inr \<lparr>lost_course = materia_info materia,
                          directly_blocked = get_materia_info pensum directly,
                          indirectly_blocked = get_materia_info pensum indirectly,
                          corequisite_affected = get_materia_info pensum coreq_affected,
                          total_blocked_courses = int (length directly) + int (length indirectly),
                          total_blocked_credits =
                            sum_list (concat (map (\<lambda>c. case get_materia pensum c of
                                                          None \<Rightarrow> [] | Some m \<Rightarrow> [credits m])
                                                (directly @ indirectly)))\<rparr>)))"

subsection \<open>Deleting a course\<close>

datatype delete_result =
    DeleteNotFound string
  | DeleteHasDependents "string list"
  | DeleteSuccess string

text \<open>\<open>delete_materia\<close> mutates the catalog; the model returns the result dict and
  the catalog after the call.\<close>

definition delete_materia :: "string \<Rightarrow> Pensum \<Rightarrow> delete_result \<times> Pensum" where
  "delete_materia code0 pensum =
     (let c = upper code0
      in case get_materia pensum c of
           None \<Rightarrow> (DeleteNotFound c, pensum)
         | Some materia \<Rightarrow>
             let dependents =
                   map code (filter (\<lambda>m. c \<in> set (prerequisites m) \<or> c \<in> set (corequisites m))
                               (materias pensum))
             in if dependents \<noteq> [] then (DeleteHasDependents dependents, pensum)
                else
                  let remaining = filter (\<lambda>m. code m \<noteq> c) (materias pensum)
                  in (DeleteSuccess c,
                      pensum\<lparr>materias := remaining, total_credits := sum_list (map credits remaining)\<rparr>))"

section \<open>Notions used to state the properties\<close>

text \<open>A tuple passes both pruning tests of the generator.\<close>

definition combo_ok :: "BloqueHorario list \<Rightarrow> Clase list \<Rightarrow> bool" where
  "combo_ok blocked_slots combo =
     (\<not> has_internal_conflict combo \<and> \<not> has_blocked_conflict combo blocked_slots)"

text \<open>Every preference of the list can be converted to a time block, that is, it ends
  after it starts.\<close>

definition franjas_ok :: "Franja list \<Rightarrow> bool" where
  "franjas_ok franjas = list_all (\<lambda>f. case to_bloque f of Inl _ \<Rightarrow> False | Inr _ \<Rightarrow> True) franjas"

text \<open>A combination, and a generation result, with the random identifiers blanked.\<close>

definition strip_id :: "HorarioCombination \<Rightarrow> HorarioCombination" where
  "strip_id c = c\<lparr>comb_id := []\<rparr>"

definition strip_ids :: "GenerationResult \<Rightarrow> GenerationResult" where
  "strip_ids r = r\<lparr>combinations := map strip_id (combinations r)\<rparr>"

section \<open>Example data\<close>

text \<open>Four sections of two courses, and two time preferences, on which the properties
  below are evaluated. The first section of each course overlaps the other on Monday;
  the blocked preference falls inside the Wednesday block.\<close>

definition ex_mon_8_10 :: BloqueHorario where
  "ex_mon_8_10 = \<lparr>day_b = MONDAY, start_b = ''08:00'', end_b = ''10:00''\<rparr>"
definition ex_mon_9_11 :: BloqueHorario where
  "ex_mon_9_11 = \<lparr>day_b = MONDAY, start_b = ''09:00'', end_b = ''11:00''\<rparr>"
definition ex_tue_9_11 :: BloqueHorario where
  "ex_tue_9_11 = \<lparr>day_b = TUESDAY, start_b = ''9:00'', end_b = ''11:00''\<rparr>"
definition ex_wed_14_16 :: BloqueHorario where
  "ex_wed_14_16 = \<lparr>day_b = WEDNESDAY, start_b = ''14:00'', end_b = ''16:00''\<rparr>"

definition ex_a1 :: Clase where
  "ex_a1 = \<lparr>materia_code = ''A'', class_code = ''1'', schedule = [ex_mon_8_10],
            professor = None, location = None\<rparr>"
definition ex_a2 :: Clase where
  "ex_a2 = \<lparr>materia_code = ''A'', class_code = ''2'', schedule = [ex_tue_9_11],
            professor = None, location = None\<rparr>"
definition ex_b1 :: Clase where
  "ex_b1 = \<lparr>materia_code = ''B'', class_code = ''1'', schedule = [ex_mon_9_11],
            professor = None, location = None\<rparr>"
definition ex_b2 :: Clase where
  "ex_b2 = \<lparr>materia_code = ''B'', class_code = ''2'', schedule = [ex_wed_14_16],
            professor = None, location = None\<rparr>"

definition ex_clases_by_materia :: "(string \<times> Clase list) list" where
  "ex_clases_by_materia = [(''A'', [ex_a1, ex_a2]), (''B'', [ex_b1, ex_b2])]"

definition ex_blocked :: Franja where
  "ex_blocked = \<lparr>day_f = WEDNESDAY, start_f = ''15:00'', end_f = ''15:30'', status_f = BLOCKED\<rparr>"
definition ex_preferred :: Franja where
  "ex_preferred = \<lparr>day_f = TUESDAY, start_f = ''08:00'', end_f = ''12:00'', status_f = PREFERRED\<rparr>"

definition ex_uuid :: "nat \<Rightarrow> string" where
  "ex_uuid k = ''0f8fad5b-d9cb-469f-a165-70867728950e''"
definition ex_uuid' :: "nat \<Rightarrow> string" where
  "ex_uuid' k = ''7c9e6679-7425-40de-944b-e07fc1f90ae7''"

section \<open>Notions and example data for the metrics, the sort and the catalog\<close>



text \<open>The gap metric named by a \<open>sort_by\<close> value.\<close>

definition gaps_metric :: "string \<Rightarrow> HorarioCombination \<Rightarrow> int" where
  "gaps_metric k = (if k = ''gaps_count'' then gaps_count else gaps_minutes)"

text \<open>The three numeric filters are absent, \<open>None\<close> or integers, and the two time
  filters are absent or falsy: the filters then cannot raise.\<close>

definition numeric_filters_ok :: "(string \<Rightarrow> pyval option) \<Rightarrow> bool" where
  "numeric_filters_ok filters =
     list_all (\<lambda>key. case filters key of Some (PStr s) \<Rightarrow> False | _ \<Rightarrow> True)
       [''min_free_days'', ''max_gaps'', ''max_gap_minutes'']"

definition time_filters_off :: "(string \<Rightarrow> pyval option) \<Rightarrow> bool" where
  "time_filters_off filters =
     list_all (\<lambda>key. case filters key of None \<Rightarrow> True | Some v \<Rightarrow> \<not> truthy v)
       [''earliest_start'', ''latest_end'']"



definition ex_gaps :: "int \<Rightarrow> HorarioCombination" where
  "ex_gaps n = (new_combination ''7c9e6679'' [ex_a1])\<lparr>gaps_count := n, gaps_minutes := 30 * n\<rparr>"

definition ex_filters :: "string \<Rightarrow> string \<Rightarrow> pyval option" where
  "ex_filters sort_order =
     [''sort_by'' \<mapsto> PStr ''gaps_count'', ''sort_order'' \<mapsto> PStr sort_order]"

text \<open>A catalog with a chain of prerequisites, and one in which the third course
  also names the first as a corequisite and a fourth course requires the third.\<close>

definition ex_math1 :: Materia where
  "ex_math1 = \<lparr>code = ''MATH1'', name = ''Calculus 1'', credits = 3, semester = 1,
               prerequisites = [], corequisites = [], status = PENDING\<rparr>"
definition ex_math2 :: Materia where
  "ex_math2 = \<lparr>code = ''MATH2'', name = ''Calculus 2'', credits = 3, semester = 2,
               prerequisites = [''MATH1''], corequisites = [], status = PENDING\<rparr>"
definition ex_math3 :: Materia where
  "ex_math3 = \<lparr>code = ''MATH3'', name = ''Calculus 3'', credits = 4, semester = 3,
               prerequisites = [''MATH2''], corequisites = [], status = PENDING\<rparr>"
definition ex_math3_coreq :: Materia where
  "ex_math3_coreq = ex_math3\<lparr>corequisites := [''MATH1'']\<rparr>"
definition ex_math4 :: Materia where
  "ex_math4 = \<lparr>code = ''MATH4'', name = ''Differential Equations'', credits = 4, semester = 4,
               prerequisites = [''MATH3''], corequisites = [], status = PENDING\<rparr>"

definition ex_chain :: Pensum where
  "ex_chain = \<lparr>materias = [ex_math1, ex_math2, ex_math3], pensum_name = ''Mi Pensum'',
               total_credits = 10\<rparr>"
definition ex_chain_coreq :: Pensum where
  "ex_chain_coreq = \<lparr>materias = [ex_math1, ex_math2, ex_math3_coreq, ex_math4],
                     pensum_name = ''Mi Pensum'', total_credits = 14\<rparr>"

text \<open>A catalog whose only course names itself as a prerequisite.\<close>

definition ex_self :: Pensum where
  "ex_self = \<lparr>materias = [ex_math1\<lparr>prerequisites := [''MATH1'']\<rparr>],
              pensum_name = ''Mi Pensum'', total_credits = 3\<rparr>"

section \<open>Notions used to state and prove the property of the cycle detection\<close>

text \<open>
  The requirement graph of a catalog, as the list of its edges in the order in which
  the building loop meets them: an edge goes from a requirement to the course that
  names it as a prerequisite or a corequisite, when the requirement is itself the code
  of a course of the catalog.
\<close>

definition edges_from :: "string set \<Rightarrow> Materia list \<Rightarrow> (string \<times> string) list" where
  "edges_from C ms =
     concat (map (\<lambda>m. map (\<lambda>p. (p, code m))
                         (filter (\<lambda>p. p \<in> C) (prerequisites m @ corequisites m))) ms)"

definition requirement_edges :: "Pensum \<Rightarrow> (string \<times> string) list" where
  "requirement_edges pensum = edges_from (set (map code (materias pensum))) (materias pensum)"

text \<open>The adjacency lists \<open>g\<close> and the counters \<open>d\<close> represent the edge list \<open>E\<close>.\<close>

definition graph_of :: "(string \<times> string list) list \<Rightarrow> (string \<Rightarrow> int) \<Rightarrow>
    (string \<times> string) list \<Rightarrow> bool" where
  "graph_of g d E =
     ((\<forall>u. dict_get g u = map snd (filter (\<lambda>e. fst e = u) E))
      \<and> (\<forall>v. d v = int (length (filter (\<lambda>e. snd e = v) E))))"

text \<open>
  The invariant of the \<open>while queue\<close> loop of the topological sort, with the list
  \<open>ps\<close> of the nodes processed so far: a counter is the number of edges that come from
  a node not yet processed, the nodes with counter 0 are the processed and the queued
  ones, and every requirement of a processed node was processed before it.
\<close>

definition kahn_inv :: "(string \<times> string) list \<Rightarrow> string list \<Rightarrow> string list \<Rightarrow> string list \<Rightarrow>
    (string \<Rightarrow> int) \<Rightarrow> bool" where
  "kahn_inv E codes ps q d =
     (distinct (ps @ q) \<and> set (ps @ q) \<subseteq> set codes
      \<and> (\<forall>v. d v = int (length (filter (\<lambda>e. snd e = v \<and> fst e \<notin> set ps) E)))
      \<and> (\<forall>v\<in>set codes. (d v = 0) = (v \<in> set ps \<union> set q))
      \<and> (\<forall>i<length ps. \<forall>u. (u, ps ! i) \<in> set E \<longrightarrow> u \<in> set (take i ps)))"

text \<open>A catalog with the cycle of prerequisites A, B, C, A.\<close>

definition ex_cyc_a :: Materia where
  "ex_cyc_a = \<lparr>code = ''A'', name = ''Course A'', credits = 3, semester = 1,
               prerequisites = [''C''], corequisites = [], status = PENDING\<rparr>"
definition ex_cyc_b :: Materia where
  "ex_cyc_b = \<lparr>code = ''B'', name = ''Course B'', credits = 3, semester = 2,
               prerequisites = [''A''], corequisites = [], status = PENDING\<rparr>"
definition ex_cyc_c :: Materia where
  "ex_cyc_c = \<lparr>code = ''C'', name = ''Course C'', credits = 3, semester = 3,
               prerequisites = [''B''], corequisites = [], status = PENDING\<rparr>"
definition ex_cycle :: Pensum where
  "ex_cycle = \<lparr>materias = [ex_cyc_a, ex_cyc_b, ex_cyc_c], pensum_name = ''Mi Pensum'',
               total_credits = 9\<rparr>"

section \<open>Termination of the two queue loops\<close>

text \<open>
  Both \<open>while queue\<close> loops end on every input. In the topological sort a node is
  appended to the queue only when its counter goes from 1 to 0, which happens at most
  once for each node; in the search a course is appended only when it is added to
  \<open>visited\<close>.
\<close>

lemma dict_get_subset: "set (dict_get d k) \<subseteq> set (concat (map snd d))"
proof (cases "map_of d k")
  case None
  then show ?thesis by (simp add: dict_get_def)
next
  case (Some vs)
  then have "(k, vs) \<in> set d" by (rule map_of_SomeD)
  then have "set vs \<subseteq> set (concat (map snd d))" by force
  with Some show ?thesis by (simp add: dict_get_def)
qed

lemma relax_measure:
  assumes "finite S"
  shows "relax ns (d, q) = (d', q') \<Longrightarrow> set ns \<subseteq> S \<Longrightarrow>
         length q' + card {v \<in> S. 0 < d' v} \<le> length q + card {v \<in> S. 0 < d v}"
proof (induction ns arbitrary: d q)
  case Nil
  then show ?case by simp
next
  case (Cons n ns)
  let ?d1 = "d(n := d n - 1)"
  let ?q1 = "if ?d1 n = 0 then q @ [n] else q"
  from Cons.prems have r: "relax ns (?d1, ?q1) = (d', q')" by (simp add: Let_def)
  from Cons.prems have nS: "n \<in> S" and sub: "set ns \<subseteq> S" by simp_all
  have fin: "finite {v \<in> S. 0 < d v}" using assms by simp
  have step: "length ?q1 + card {v \<in> S. 0 < ?d1 v} \<le> length q + card {v \<in> S. 0 < d v}"
  proof (cases "?d1 n = 0")
    case True
    then have dn: "d n = 1" by simp
    have "{v \<in> S. 0 < ?d1 v} = {v \<in> S. 0 < d v} - {n}" using dn by auto
    moreover have "n \<in> {v \<in> S. 0 < d v}" using nS dn by simp
    ultimately have "card {v \<in> S. 0 < ?d1 v} = card {v \<in> S. 0 < d v} - 1"
      and "0 < card {v \<in> S. 0 < d v}"
      using fin by (auto simp: card_gt_0_iff)
    moreover have "length ?q1 = length q + 1" using True by simp
    ultimately show ?thesis by linarith
  next
    case False
    have "{v \<in> S. 0 < ?d1 v} \<subseteq> {v \<in> S. 0 < d v}" by auto
    then have "card {v \<in> S. 0 < ?d1 v} \<le> card {v \<in> S. 0 < d v}"
      using fin by (rule card_mono[rotated])
    moreover have "length ?q1 = length q" using False by simp
    ultimately show ?thesis by linarith
  qed
  from Cons.IH[OF r sub] step show ?case by linarith
qed

termination kahn
proof (relation "measure (\<lambda>(g, q, d, c). length q + card {v \<in> set (concat (map snd g)). 0 < d v})")
  show "wf (measure (\<lambda>(g, q, d, c). length q + card {v \<in> set (concat (map snd g)). 0 < d v}))"
    by simp
next
  fix g :: "(string \<times> string list) list" and current queue in_degree and sorted_count :: int
    and in_degree' queue'
  assume "(in_degree', queue') = relax (dict_get g current) (in_degree, queue)"
  then have "relax (dict_get g current) (in_degree, queue) = (in_degree', queue')" by simp
  from relax_measure[OF _ this dict_get_subset]
  show "((g, queue', in_degree', sorted_count + 1), (g, current # queue, in_degree, sorted_count))
        \<in> measure (\<lambda>(g, q, d, c). length q + card {v \<in> set (concat (map snd g)). 0 < d v})"
    by simp
qed

lemma block_deps_measure:
  assumes "finite U"
  shows "block_deps ds (b, vis, q) = (b', vis', q') \<Longrightarrow> set ds \<subseteq> U \<Longrightarrow>
         length q' + card (U - vis') \<le> length q + card (U - vis)"
proof (induction ds arbitrary: b vis q)
  case Nil
  then show ?case by simp
next
  case (Cons d ds)
  from Cons.prems have dU: "d \<in> U" and sub: "set ds \<subseteq> U" by simp_all
  show ?case
  proof (cases "d \<in> vis")
    case True
    with Cons.prems have "block_deps ds (b, vis, q) = (b', vis', q')" by simp
    from Cons.IH[OF this sub] show ?thesis .
  next
    case False
    with Cons.prems have "block_deps ds (b @ [d], insert d vis, q @ [d]) = (b', vis', q')" by simp
    from Cons.IH[OF this sub]
    have "length q' + card (U - vis') \<le> length (q @ [d]) + card (U - insert d vis)" .
    moreover have "length (q @ [d]) = length q + 1" by simp
    moreover have "card (U - insert d vis) = card (U - vis) - 1 \<and> 0 < card (U - vis)"
    proof -
      have "U - insert d vis = (U - vis) - {d}" by auto
      moreover have "d \<in> U - vis" using dU False by simp
      moreover have "finite (U - vis)" using assms by simp
      ultimately show ?thesis by (auto simp: card_gt_0_iff)
    qed
    ultimately show ?thesis by linarith
  qed
qed

termination bfs_indirect
proof (relation "measure (\<lambda>(g, q, vis, ind). length q + card (set (concat (map snd g)) - vis))")
  show "wf (measure (\<lambda>(g, q, vis, ind). length q + card (set (concat (map snd g)) - vis)))"
    by simp
next
  fix prereq_dependents :: "(string \<times> string list) list" and current queue visited
    and indirectly :: "string list" and indirectly' x2 visited' queue'
  assume "(indirectly', x2) = block_deps (dict_get prereq_dependents current) (indirectly, visited, queue)"
    and "(visited', queue') = x2"
  then have "block_deps (dict_get prereq_dependents current) (indirectly, visited, queue)
      = (indirectly', visited', queue')" by simp
  from block_deps_measure[OF _ this dict_get_subset]
  show "((prereq_dependents, queue', visited', indirectly'),
         (prereq_dependents, current # queue, visited, indirectly))
        \<in> measure (\<lambda>(g, q, vis, ind). length q + card (set (concat (map snd g)) - vis))"
    by simp
qed

section \<open>The time fields\<close>

text \<open>A string that passes the field pattern is parsed by \<open>_time_to_minutes\<close> without
  an exception.\<close>

lemma digit_facts:
  assumes "is_digit c"
  shows "c \<noteq> CHR '':''" "\<not> is_space c" "c \<noteq> CHR ''-''" "c \<noteq> CHR ''+''" "c \<noteq> CHR ''_''"
  using assms by (auto simp: is_digit_def is_space_def less_eq_char_def)

lemma min_digit_facts:
  assumes "CHR ''0'' \<le> c" "c \<le> CHR ''5''"
  shows "is_digit c"
  using assms by (auto simp: is_digit_def less_eq_char_def)

lemma py_int_digit1: "is_digit a \<Longrightarrow> py_int [a] = Some (digit_val a)"
  by (simp add: py_int_def strip_def digit_facts Let_def)

lemma py_int_digit2: "is_digit a \<Longrightarrow> is_digit b \<Longrightarrow> py_int [a, b] = Some (10 * digit_val a + digit_val b)"
  by (simp add: py_int_def strip_def digit_facts Let_def)

lemma time_pattern_parses: "time_pattern s \<Longrightarrow> \<exists>n. time_to_minutes s = Inr n"
proof -
  assume t: "time_pattern s"
  then consider (four) h c m1 m2 where "s = [h, c, m1, m2]" "is_digit h" "c = CHR '':''"
        "is_digit m1" "is_digit m2"
    | (five) h1 h2 c m1 m2 where "s = [h1, h2, c, m1, m2]" "is_digit h1" "is_digit h2" "c = CHR '':''"
        "is_digit m1" "is_digit m2"
    by (auto simp: time_pattern_def min_digit_facts is_digit_def less_eq_char_def
        split: list.splits)
  then show ?thesis
  proof cases
    case four
    then show ?thesis
      by (simp add: time_to_minutes_def digit_facts py_int_digit1 py_int_digit2)
  next
    case five
    then show ?thesis
      by (simp add: time_to_minutes_def digit_facts py_int_digit1 py_int_digit2)
  qed
qed

section \<open>Properties of the schedule generator\<close>

lemma overlaps_with_sym: "overlaps_with a b = overlaps_with b a"
  by (auto simp: overlaps_with_def)

lemma conflicts_with_iff:
  "conflicts_with a b = (\<exists>x\<in>set (schedule a). \<exists>y\<in>set (schedule b). overlaps_with x y)"
  by (simp add: conflicts_with_def list_ex_iff)

lemma conflicts_with_blocks_iff:
  "conflicts_with_blocks a bs = (\<exists>x\<in>set (schedule a). \<exists>y\<in>set bs. overlaps_with x y)"
  by (simp add: conflicts_with_blocks_def list_ex_iff)

lemma has_internal_conflict_iff:
  "has_internal_conflict cs = (\<not> sorted_wrt (\<lambda>a b. \<not> conflicts_with a b) cs)"
  by (induction cs) (auto simp: list_ex_iff)

lemma no_internal_conflict_nth:
  assumes "\<not> has_internal_conflict cs" "i < length cs" "j < length cs" "i \<noteq> j"
  shows "\<not> conflicts_with (cs ! i) (cs ! j)"
proof -
  have sw: "sorted_wrt (\<lambda>a b. \<not> conflicts_with a b) cs"
    using assms(1) by (simp add: has_internal_conflict_iff)
  have sym: "conflicts_with a b = conflicts_with b a" for a b
    unfolding conflicts_with_iff using overlaps_with_sym by blast
  show ?thesis
  proof (cases "i < j")
    case True
    then show ?thesis using sw assms(3) by (simp add: sorted_wrt_iff_nth_less)
  next
    case False
    then have "j < i" using assms(4) by simp
    then have "\<not> conflicts_with (cs ! j) (cs ! i)"
      using sw assms(2) by (simp add: sorted_wrt_iff_nth_less)
    then show ?thesis using sym by simp
  qed
qed

lemma base_metrics_clases: "clases (base_metrics c) = clases c \<and> comb_id (base_metrics c) = comb_id c"
  by (simp add: base_metrics_def Let_def split: prod.splits)

lemma calculate_metrics_clases:
  "calculate_metrics c fr = Inr c' \<Longrightarrow> clases c' = clases c \<and> comb_id c' = comb_id c"
  by (auto simp: calculate_metrics_def base_metrics_clases split: if_splits sum.splits)

lemma gen_loop_accepts:
  "gen_loop u fr bl mx ts vc chk = Inr (vc', chk') \<Longrightarrow>
     \<exists>vs. vc' = vc @ vs \<and> (\<forall>c\<in>set vs. clases c \<in> set ts \<and> combo_ok bl (clases c))"
proof (induction ts arbitrary: vc chk)
  case Nil
  then show ?case by simp
next
  case (Cons t ts)
  show ?case
  proof (cases "limit_reached mx vc")
    case True
    with Cons.prems show ?thesis by simp
  next
    case nl: False
    show ?thesis
    proof (cases "combo_ok bl t")
      case False
      with nl Cons.prems have "gen_loop u fr bl mx ts vc (chk + 1) = Inr (vc', chk')"
        by (auto simp: combo_ok_def split: if_splits)
      from Cons.IH[OF this] show ?thesis by auto
    next
      case True
      with nl Cons.prems obtain c where
        c: "calculate_metrics (new_combination (take 8 (u (length vc))) t) fr = Inr c"
        and r: "gen_loop u fr bl mx ts (vc @ [c]) (chk + 1) = Inr (vc', chk')"
        by (auto simp: combo_ok_def split: sum.splits)
      from calculate_metrics_clases[OF c] have "clases c = t" by (simp add: new_combination_def)
      with Cons.IH[OF r] True show ?thesis by auto
    qed
  qed
qed

lemma gen_loop_counts:
  "gen_loop u fr bl mx ts vc chk = Inr (vc', chk') \<Longrightarrow>
     chk \<le> chk' \<and> chk' \<le> chk + int (length ts)
     \<and> int (length vc') - int (length vc) \<le> chk' - chk \<and> length vc \<le> length vc'"
proof (induction ts arbitrary: vc chk)
  case Nil
  then show ?case by simp
next
  case (Cons t ts)
  show ?case
  proof (cases "limit_reached mx vc")
    case True
    with Cons.prems show ?thesis by simp
  next
    case nl: False
    show ?thesis
    proof (cases "combo_ok bl t")
      case False
      with nl Cons.prems have "gen_loop u fr bl mx ts vc (chk + 1) = Inr (vc', chk')"
        by (auto simp: combo_ok_def split: if_splits)
      from Cons.IH[OF this] show ?thesis by simp
    next
      case True
      with nl Cons.prems obtain c where
        r: "gen_loop u fr bl mx ts (vc @ [c]) (chk + 1) = Inr (vc', chk')"
        by (auto simp: combo_ok_def split: sum.splits)
      from Cons.IH[OF r] show ?thesis by simp
    qed
  qed
qed

lemma gen_loop_unlimited:
  assumes "\<not> (\<exists>n. mx = Some n \<and> n \<noteq> 0)"
  shows "gen_loop u fr bl mx ts vc chk = Inr (vc', chk') \<Longrightarrow>
     chk' = chk + int (length ts) \<and> map clases vc' = map clases vc @ filter (combo_ok bl) ts"
proof (induction ts arbitrary: vc chk)
  case Nil
  then show ?case by simp
next
  case (Cons t ts)
  have nl: "\<not> limit_reached mx vc" for vc
    using assms by (auto simp: limit_reached_def split: option.splits)
  show ?case
  proof (cases "combo_ok bl t")
    case False
    with nl Cons.prems have "gen_loop u fr bl mx ts vc (chk + 1) = Inr (vc', chk')"
      by (auto simp: combo_ok_def split: if_splits)
    from Cons.IH[OF this] False show ?thesis by simp
  next
    case True
    with nl Cons.prems obtain c where
      c: "calculate_metrics (new_combination (take 8 (u (length vc))) t) fr = Inr c"
      and r: "gen_loop u fr bl mx ts (vc @ [c]) (chk + 1) = Inr (vc', chk')"
      by (auto simp: combo_ok_def split: sum.splits)
    from calculate_metrics_clases[OF c] have "clases c = t" by (simp add: new_combination_def)
    with Cons.IH[OF r] True show ?thesis by simp
  qed
qed

lemma gen_loop_limited:
  assumes mx: "mx = Some n" and n: "0 < n"
  shows "gen_loop u fr bl mx ts vc chk = Inr (vc', chk') \<Longrightarrow> int (length vc) \<le> n \<Longrightarrow>
     \<exists>j. chk' = chk + int j \<and> j \<le> length ts
       \<and> map clases vc' = take (nat n) (map clases vc @ filter (combo_ok bl) ts)
       \<and> map clases vc' = take (nat n) (map clases vc @ filter (combo_ok bl) (take j ts))
       \<and> (j < length ts \<longrightarrow>
            1 \<le> j \<and> int (length vc) + int (length (filter (combo_ok bl) (take (j - 1) ts))) = n
            \<and> (2 \<le> j \<longrightarrow>
                 int (length vc) + int (length (filter (combo_ok bl) (take (j - 2) ts))) = n - 1))"
proof (induction ts arbitrary: vc chk)
  case Nil
  then show ?case by simp
next
  case (Cons t ts)
  show ?case
  proof (cases "limit_reached mx vc")
    case True
    then have len: "int (length vc) = n" using Cons.prems(2) mx n by (simp add: limit_reached_def)
    from True Cons.prems have res: "vc' = vc" "chk' = chk + 1" by simp_all
    have "length (map clases vc) = nat n" using len by simp
    then have tk: "take (nat n) (map clases vc @ zs) = map clases vc" for zs
      by (metis append_eq_conv_conj)
    show ?thesis
      apply (rule exI[of _ 1])
      using res len tk by simp
  next
    case nl: False
    then have lt: "int (length vc) < n" using mx n by (simp add: limit_reached_def)
    show ?thesis
    proof (cases "combo_ok bl t")
      case False
      with nl Cons.prems have r: "gen_loop u fr bl mx ts vc (chk + 1) = Inr (vc', chk')"
        by (auto simp: combo_ok_def split: if_splits)
      from Cons.IH[OF r Cons.prems(2)] obtain j where j:
        "chk' = chk + 1 + int j" "j \<le> length ts"
        "map clases vc' = take (nat n) (map clases vc @ filter (combo_ok bl) ts)"
        "map clases vc' = take (nat n) (map clases vc @ filter (combo_ok bl) (take j ts))"
        "j < length ts \<longrightarrow>
            1 \<le> j \<and> int (length vc) + int (length (filter (combo_ok bl) (take (j - 1) ts))) = n
            \<and> (2 \<le> j \<longrightarrow>
                 int (length vc) + int (length (filter (combo_ok bl) (take (j - 2) ts))) = n - 1)"
        by auto
      have j2: "j < length ts \<longrightarrow> 2 \<le> j"
      proof
        assume a: "j < length ts"
        show "2 \<le> j"
        proof (rule ccontr)
          assume "\<not> 2 \<le> j"
          with j(5) a have "j = 1" by auto
          with j(5) a have "int (length vc) = n" by simp
          with lt show False by simp
        qed
      qed
      show ?thesis
        apply (rule exI[of _ "Suc j"])
        using j False j2 by (auto simp: take_Cons' numeral_2_eq_2 Suc_diff_Suc)
    next
      case True
      with nl Cons.prems obtain c where
        c: "calculate_metrics (new_combination (take 8 (u (length vc))) t) fr = Inr c"
        and r: "gen_loop u fr bl mx ts (vc @ [c]) (chk + 1) = Inr (vc', chk')"
        by (auto simp: combo_ok_def split: sum.splits)
      from calculate_metrics_clases[OF c] have ct: "clases c = t" by (simp add: new_combination_def)
      have len': "int (length (vc @ [c])) \<le> n" using lt by simp
      from Cons.IH[OF r len'] obtain j where j:
        "chk' = chk + 1 + int j" "j \<le> length ts"
        "map clases vc' = take (nat n) (map clases (vc @ [c]) @ filter (combo_ok bl) ts)"
        "map clases vc' = take (nat n) (map clases (vc @ [c]) @ filter (combo_ok bl) (take j ts))"
        "j < length ts \<longrightarrow>
            1 \<le> j \<and> int (length (vc @ [c])) + int (length (filter (combo_ok bl) (take (j - 1) ts))) = n
            \<and> (2 \<le> j \<longrightarrow>
                 int (length (vc @ [c])) + int (length (filter (combo_ok bl) (take (j - 2) ts))) = n - 1)"
        by auto
      show ?thesis
        apply (rule exI[of _ "Suc j"])
        using j True ct by (auto simp: take_Cons' numeral_2_eq_2 Suc_diff_Suc)
    qed
  qed
qed

lemma fold_total_possible:
  "fold (\<lambda>options acc. acc * (if options \<noteq> [] then int (length options) else 1)) opts a
     = a * prod_list (map (\<lambda>options. if options \<noteq> [] then int (length options) else 1) opts)"
  by (induction opts arbitrary: a) (simp_all add: mult.assoc)

lemma length_itertools_product:
  "length (itertools_product xss) = prod_list (map length xss)"
proof (induction xss)
  case Nil
  then show ?case by simp
next
  case (Cons xs xss)
  have "length (concat (map (\<lambda>x. map ((#) x) (itertools_product xss)) xs))
          = length xs * length (itertools_product xss)"
    by (induction xs) simp_all
  with Cons show ?case by simp
qed

lemma tuples_le_total_possible:
  "int (length (itertools_product opts)) \<le> calc_total_possible opts"
proof -
  have "int (prod_list (map length opts))
          \<le> prod_list (map (\<lambda>options. if options \<noteq> [] then int (length options) else 1) opts)"
  proof (induction opts)
    case Nil
    then show ?case by simp
  next
    case (Cons x xs)
    have "int (length x) * int (prod_list (map length xs))
            \<le> (if x \<noteq> [] then int (length x) else 1)
                * prod_list (map (\<lambda>options. if options \<noteq> [] then int (length options) else 1) xs)"
      by (rule mult_mono) (use Cons in auto)
    then show ?case by simp
  qed
  then show ?thesis
    by (simp add: calc_total_possible_def fold_total_possible length_itertools_product)
qed

lemma blocked_slots_of_sound:
  "blocked_slots_of fr = Inr bl \<Longrightarrow> f \<in> set fr \<Longrightarrow> status_f f = BLOCKED \<Longrightarrow>
     \<exists>fb. to_bloque f = Inr fb \<and> fb \<in> set bl"
  by (induction fr arbitrary: bl) (auto split: if_splits sum.splits)

lemma blocked_slots_of_returns:
  "franjas_ok fr \<Longrightarrow> \<exists>bl. blocked_slots_of fr = Inr bl"
  by (induction fr) (auto simp: franjas_ok_def split: sum.splits)

lemma block_in_preferred_returns:
  "franjas_ok ps \<Longrightarrow> \<exists>r. block_in_preferred b ps = Inr r"
  by (induction ps) (auto simp: franjas_ok_def split: sum.splits)

lemma count_preferred_returns:
  "franjas_ok ps \<Longrightarrow> \<exists>k'. count_preferred bs ps k = Inr k'"
proof (induction bs arbitrary: k)
  case Nil
  then show ?case by simp
next
  case (Cons b bs)
  from block_in_preferred_returns[OF Cons.prems] obtain r where "block_in_preferred b ps = Inr r"
    by blast
  with Cons.IH[OF Cons.prems] show ?case by simp
qed

lemma franjas_ok_filter: "franjas_ok fr \<Longrightarrow> franjas_ok (filter P fr)"
  by (simp add: franjas_ok_def list_all_iff)

lemma calculate_metrics_returns:
  "franjas_ok fr \<Longrightarrow> \<exists>c'. calculate_metrics c fr = Inr c'"
  using count_preferred_returns[OF franjas_ok_filter, of fr]
  by (auto simp: calculate_metrics_def split: sum.splits) (metis Inl_Inr_False)

lemma gen_loop_returns:
  "franjas_ok fr \<Longrightarrow> \<exists>r. gen_loop u fr bl mx ts vc chk = Inr r"
proof (induction ts arbitrary: vc chk)
  case Nil
  then show ?case by simp
next
  case (Cons t ts)
  obtain c where "calculate_metrics (new_combination (take 8 (u (length vc))) t) fr = Inr c"
    using calculate_metrics_returns[OF Cons.prems] by blast
  with Cons.IH[OF Cons.prems] show ?case by simp
qed

lemma generate_combinations_returns:
  "franjas_ok fr \<Longrightarrow> \<exists>res. generate_combinations u cbm fr mx = Inr res"
proof -
  assume ok: "franjas_ok fr"
  obtain bl where bl: "blocked_slots_of fr = Inr bl" using blocked_slots_of_returns[OF ok] by blast
  obtain vc chk where
    "gen_loop u fr bl mx (itertools_product (class_options cbm)) [] 0 = Inr (vc, chk)"
    using gen_loop_returns[OF ok, of u bl mx _ "[]" 0] by (metis surj_pair)
  with bl show ?thesis by (simp add: generate_combinations_def Let_def)
qed

lemma generate_combinations_unfold:
  assumes "generate_combinations u cbm fr mx = Inr res"
  obtains bl vc chk where "blocked_slots_of fr = Inr bl"
    and "gen_loop u fr bl mx (itertools_product (class_options cbm)) [] 0 = Inr (vc, chk)"
    and "combinations res = vc" and "total_checked res = chk"
    and "total_generated res = int (length vc)"
    and "total_possible res = calc_total_possible (class_options cbm)"
  using assms
  by (auto simp: generate_combinations_def Let_def split: sum.splits prod.splits)

lemma gen_loop_zero_limit:
  "gen_loop u fr bl (Some 0) ts vc chk = gen_loop u fr bl None ts vc chk"
  by (induction ts arbitrary: vc chk) (simp_all add: limit_reached_def split: sum.splits)

lemma base_metrics_id: "base_metrics (c\<lparr>comb_id := x\<rparr>) = (base_metrics c)\<lparr>comb_id := x\<rparr>"
  by (simp add: base_metrics_def Let_def split: prod.splits)

lemma calculate_metrics_id:
  "calculate_metrics (c\<lparr>comb_id := x\<rparr>) fr = map_sum (\<lambda>e. e) (\<lambda>c'. c'\<lparr>comb_id := x\<rparr>) (calculate_metrics c fr)"
  by (simp add: calculate_metrics_def base_metrics_id split: sum.splits)

lemma new_combination_id: "new_combination i t = (new_combination [] t)\<lparr>comb_id := i\<rparr>"
  by (simp add: new_combination_def)

lemma calculate_metrics_new_id:
  "calculate_metrics (new_combination i t) fr
     = map_sum (\<lambda>e. e) (\<lambda>c'. c'\<lparr>comb_id := i\<rparr>) (calculate_metrics (new_combination [] t) fr)"
  using calculate_metrics_id[where c = "new_combination [] t" and x = i and fr = fr]
    new_combination_id[of i t] by simp

lemma gen_loop_ids:
  "map strip_id vc1 = map strip_id vc2 \<Longrightarrow>
   map_sum (\<lambda>e. e) (\<lambda>(vc, chk). (map strip_id vc, chk)) (gen_loop u1 fr bl mx ts vc1 chk)
     = map_sum (\<lambda>e. e) (\<lambda>(vc, chk). (map strip_id vc, chk)) (gen_loop u2 fr bl mx ts vc2 chk)"
proof (induction ts arbitrary: vc1 vc2 chk)
  case Nil
  then show ?case by simp
next
  case (Cons t ts)
  from Cons.prems have len: "length vc1 = length vc2" by (metis length_map)
  then have lim: "limit_reached mx vc1 = limit_reached mx vc2"
    by (simp add: limit_reached_def split: option.splits)
  let ?i1 = "take 8 (u1 (length vc1))" and ?i2 = "take 8 (u2 (length vc2))"
  have ih: "map_sum (\<lambda>e. e) (\<lambda>(vc, chk). (map strip_id vc, chk)) (gen_loop u1 fr bl mx ts vc1 (chk + 1))
     = map_sum (\<lambda>e. e) (\<lambda>(vc, chk). (map strip_id vc, chk)) (gen_loop u2 fr bl mx ts vc2 (chk + 1))"
    by (rule Cons.IH[OF Cons.prems])
  show ?case
  proof (cases "limit_reached mx vc1")
    case True
    then show ?thesis using lim Cons.prems by simp
  next
    case nl: False
    then have nl2: "\<not> limit_reached mx vc2" using lim by simp
    show ?thesis
    proof (cases "has_internal_conflict t \<or> has_blocked_conflict t bl")
      case True
      then show ?thesis using nl nl2 ih by auto
    next
      case ok: False
      show ?thesis
      proof (cases "calculate_metrics (new_combination [] t) fr")
        case (Inl e)
        have c1: "calculate_metrics (new_combination ?i1 t) fr = Inl e"
          by (subst calculate_metrics_new_id) (simp add: Inl)
        have c2: "calculate_metrics (new_combination ?i2 t) fr = Inl e"
          by (subst calculate_metrics_new_id) (simp add: Inl)
        have "gen_loop u1 fr bl mx (t # ts) vc1 chk = Inl e"
          using nl ok c1 by simp
        moreover have "gen_loop u2 fr bl mx (t # ts) vc2 chk = Inl e"
          using nl2 ok c2 by simp
        ultimately show ?thesis by simp
      next
        case (Inr c)
        have c1: "calculate_metrics (new_combination ?i1 t) fr = Inr (c\<lparr>comb_id := ?i1\<rparr>)"
          by (subst calculate_metrics_new_id) (simp add: Inr)
        have c2: "calculate_metrics (new_combination ?i2 t) fr = Inr (c\<lparr>comb_id := ?i2\<rparr>)"
          by (subst calculate_metrics_new_id) (simp add: Inr)
        have g1: "gen_loop u1 fr bl mx (t # ts) vc1 chk
                    = gen_loop u1 fr bl mx ts (vc1 @ [c\<lparr>comb_id := ?i1\<rparr>]) (chk + 1)"
          using nl ok c1 by simp
        have g2: "gen_loop u2 fr bl mx (t # ts) vc2 chk
                    = gen_loop u2 fr bl mx ts (vc2 @ [c\<lparr>comb_id := ?i2\<rparr>]) (chk + 1)"
          using nl2 ok c2 by simp
        have "strip_id (c\<lparr>comb_id := ?i1\<rparr>) = strip_id (c\<lparr>comb_id := ?i2\<rparr>)"
          by (simp add: strip_id_def)
        with Cons.prems
        have "map strip_id (vc1 @ [c\<lparr>comb_id := ?i1\<rparr>]) = map strip_id (vc2 @ [c\<lparr>comb_id := ?i2\<rparr>])"
          by simp
        from Cons.IH[OF this, of "chk + 1"] show ?thesis
          unfolding g1 g2 .
      qed
    qed
  qed
qed

lemma gen_loop_stops:
  assumes mx: "mx = Some n" and n: "0 < n"
  shows "gen_loop u fr bl mx ts vc chk = Inr (vc', chk') \<Longrightarrow> p < length ts \<Longrightarrow>
         n \<le> int (length vc) + int (length (filter (combo_ok bl) (take p ts))) \<Longrightarrow>
         chk' \<le> chk + int p + 1"
proof (induction ts arbitrary: vc chk p)
  case Nil
  then show ?case by simp
next
  case (Cons t ts)
  show ?case
  proof (cases "limit_reached mx vc")
    case True
    with Cons.prems show ?thesis by simp
  next
    case nl: False
    then have lt: "int (length vc) < n" using mx n by (simp add: limit_reached_def)
    have "p \<noteq> 0"
    proof
      assume "p = 0"
      with Cons.prems(3) lt show False by simp
    qed
    then obtain p' where p: "p = Suc p'" by (cases p) auto
    with Cons.prems(2) have p': "p' < length ts \<or> ts = []" by auto
    show ?thesis
    proof (cases "combo_ok bl t")
      case False
      with nl Cons.prems(1) have r: "gen_loop u fr bl mx ts vc (chk + 1) = Inr (vc', chk')"
        by (auto simp: combo_ok_def split: if_splits)
      from False Cons.prems(3) p
      have c: "n \<le> int (length vc) + int (length (filter (combo_ok bl) (take p' ts)))" by simp
      show ?thesis
      proof (cases "ts = []")
        case True
        with r p show ?thesis by simp
      next
        case False
        with p' have "p' < length ts" by simp
        from Cons.IH[OF r this c] p show ?thesis by simp
      qed
    next
      case True
      with nl Cons.prems(1) obtain c where
        r: "gen_loop u fr bl mx ts (vc @ [c]) (chk + 1) = Inr (vc', chk')"
        by (auto simp: combo_ok_def split: sum.splits)
      from True Cons.prems(3) p
      have c: "n \<le> int (length (vc @ [c])) + int (length (filter (combo_ok bl) (take p' ts)))"
        by simp
      show ?thesis
      proof (cases "ts = []")
        case True
        with r p show ?thesis by simp
      next
        case False
        with p' have "p' < length ts" by simp
        from Cons.IH[OF r this c] p show ?thesis by simp
      qed
    qed
  qed
qed

lemma filter_take_mono:
  "a \<le> b \<Longrightarrow> length (filter P (take a xs)) \<le> length (filter P (take b xs))"
proof -
  assume "a \<le> b"
  then have "take b xs = take a xs @ take (b - a) (drop a xs)"
    by (metis le_add_diff_inverse take_add)
  then show ?thesis by simp
qed

section \<open>The claims about the schedule generator\<close>

text \<open>
  C10: a limit of 0 means no limit. Called with \<open>max_combinations = 0\<close> the generator
  returns exactly what it returns with \<open>max_combinations = None\<close>; every tuple of the
  product is visited, and the accepted combinations are, in order, all the tuples that
  pass both pruning tests. When every preference can be converted to a time block the
  call returns a result.
\<close>

theorem zero_limit_is_no_limit:
  "generate_combinations uuid4 cbm fr (Some 0) = generate_combinations uuid4 cbm fr None
   \<and> (\<forall>bl res. blocked_slots_of fr = Inr bl
          \<and> generate_combinations uuid4 cbm fr (Some 0) = Inr res \<longrightarrow>
        map clases (combinations res) = filter (combo_ok bl) (itertools_product (class_options cbm))
        \<and> total_checked res = int (length (itertools_product (class_options cbm))))
   \<and> (franjas_ok fr \<longrightarrow> (\<exists>res. generate_combinations uuid4 cbm fr (Some 0) = Inr res))"
proof (intro conjI allI impI)
  show "generate_combinations uuid4 cbm fr (Some 0) = generate_combinations uuid4 cbm fr None"
    by (cases "blocked_slots_of fr") (simp_all add: generate_combinations_def gen_loop_zero_limit)
next
  fix bl res
  assume a: "blocked_slots_of fr = Inr bl
          \<and> generate_combinations uuid4 cbm fr (Some 0) = Inr res"
  then obtain vc chk where
    g: "gen_loop uuid4 fr bl (Some 0) (itertools_product (class_options cbm)) [] 0 = Inr (vc, chk)"
    and r: "combinations res = vc" "total_checked res = chk"
    by (elim conjE generate_combinations_unfold) simp
  have "\<not> (\<exists>n. Some (0::int) = Some n \<and> n \<noteq> 0)" by simp
  from gen_loop_unlimited[OF this g] r
  show "map clases (combinations res) = filter (combo_ok bl) (itertools_product (class_options cbm))"
    and "total_checked res = int (length (itertools_product (class_options cbm)))"
    by simp_all
next
  assume "franjas_ok fr"
  then show "\<exists>res. generate_combinations uuid4 cbm fr (Some 0) = Inr res"
    by (rule generate_combinations_returns)
qed

theorem zero_limit_is_no_limit_witness:
  "franjas_ok [] \<and> blocked_slots_of [] = Inr []
   \<and> (\<exists>res. generate_combinations ex_uuid ex_clases_by_materia [] (Some 0) = Inr res
          \<and> map clases (combinations res) = [[ex_a1, ex_b2], [ex_a2, ex_b1], [ex_a2, ex_b2]]
          \<and> total_checked res = 4)"
proof -
  note t = zero_limit_is_no_limit[of ex_uuid ex_clases_by_materia "[]"]
  have ok: "franjas_ok []" by (simp add: franjas_ok_def)
  have bl: "blocked_slots_of [] = Inr []" by simp
  from t ok obtain res where
    r: "generate_combinations ex_uuid ex_clases_by_materia [] (Some 0) = Inr res" by blast
  from t bl r have
    "map clases (combinations res)
       = filter (combo_ok []) (itertools_product (class_options ex_clases_by_materia))"
    and "total_checked res = int (length (itertools_product (class_options ex_clases_by_materia)))"
    by blast+
  moreover have "filter (combo_ok []) (itertools_product (class_options ex_clases_by_materia))
      = [[ex_a1, ex_b2], [ex_a2, ex_b1], [ex_a2, ex_b2]]"
    by code_simp
  moreover have "int (length (itertools_product (class_options ex_clases_by_materia))) = 4"
    by code_simp
  ultimately show ?thesis using ok bl r by auto
qed

text \<open>
  C5: the generator is deterministic up to the identifiers. Two runs on the same
  course-to-sections list, the same preferences and the same limit, with any two
  sources of \<open>uuid4\<close> values, end in the same way (the same exception, or a result),
  and the results are equal once the random identifier of each combination is blanked:
  the same combinations in the same order, with the same metrics and counters.
\<close>

theorem generate_combinations_deterministic:
  "map_sum (\<lambda>e. e) strip_ids (generate_combinations uuid4 cbm fr mx)
     = map_sum (\<lambda>e. e) strip_ids (generate_combinations uuid4' cbm fr mx)"
proof (cases "blocked_slots_of fr")
  case (Inl e)
  then show ?thesis by (simp add: generate_combinations_def)
next
  case (Inr bl)
  have "map strip_id [] = map strip_id ([] :: HorarioCombination list)" by simp
  from gen_loop_ids[OF this, of uuid4 fr bl mx "itertools_product (class_options cbm)" 0 uuid4']
  show ?thesis
    using Inr
    by (cases "gen_loop uuid4 fr bl mx (itertools_product (class_options cbm)) [] 0";
        cases "gen_loop uuid4' fr bl mx (itertools_product (class_options cbm)) [] 0")
       (auto simp: generate_combinations_def Let_def strip_ids_def dest: map_eq_imp_length_eq)
qed

theorem generate_combinations_deterministic_witness:
  "map_sum (\<lambda>e. e) strip_ids
      (generate_combinations ex_uuid ex_clases_by_materia [ex_blocked, ex_preferred] None)
     = map_sum (\<lambda>e. e) strip_ids
         (generate_combinations ex_uuid' ex_clases_by_materia [ex_blocked, ex_preferred] None)
   \<and> (case generate_combinations ex_uuid ex_clases_by_materia [ex_blocked, ex_preferred] None of
         Inl _ \<Rightarrow> False
       | Inr res \<Rightarrow> map clases (combinations res) = [[ex_a2, ex_b1]]
                     \<and> map comb_id (combinations res) = [''0f8fad5b''])"
proof -
  have "case generate_combinations ex_uuid ex_clases_by_materia [ex_blocked, ex_preferred] None of
         Inl _ \<Rightarrow> False
       | Inr res \<Rightarrow> map clases (combinations res) = [[ex_a2, ex_b1]]
                     \<and> map comb_id (combinations res) = [''0f8fad5b'']"
    by code_simp
  with generate_combinations_deterministic[of ex_uuid ex_clases_by_materia
      "[ex_blocked, ex_preferred]" None ex_uuid']
  show ?thesis by blast
qed

text \<open>
  C1: every combination returned by the generator is free of conflicts. For any two
  different positions of its class list, no time block of one section overlaps a time
  block of the other; and every preference with status BLOCKED was converted to a time
  block that no block of a chosen section overlaps.
\<close>
theorem generated_combinations_conflict_free:
  assumes "generate_combinations uuid4 cbm fr mx = Inr res"
    and "c \<in> set (combinations res)"
  shows "(\<forall>i<length (clases c). \<forall>j<length (clases c). i \<noteq> j \<longrightarrow>
            (\<forall>x\<in>set (schedule (clases c ! i)). \<forall>y\<in>set (schedule (clases c ! j)).
               \<not> overlaps_with x y))
       \<and> (\<forall>f\<in>set fr. status_f f = BLOCKED \<longrightarrow>
            (\<exists>fb. to_bloque f = Inr fb
               \<and> (\<forall>k\<in>set (clases c). \<forall>x\<in>set (schedule k). \<not> overlaps_with x fb)))"
proof -
  from assms(1) obtain bl vc chk where bl: "blocked_slots_of fr = Inr bl"
    and g: "gen_loop uuid4 fr bl mx (itertools_product (class_options cbm)) [] 0 = Inr (vc, chk)"
    and vc: "combinations res = vc"
    by (rule generate_combinations_unfold)
  from gen_loop_accepts[OF g] assms(2) vc have ok: "combo_ok bl (clases c)" by auto
  then have ni: "\<not> has_internal_conflict (clases c)"
    and nb: "\<not> has_blocked_conflict (clases c) bl"
    by (simp_all add: combo_ok_def)
  have p1: "\<forall>i<length (clases c). \<forall>j<length (clases c). i \<noteq> j \<longrightarrow>
            (\<forall>x\<in>set (schedule (clases c ! i)). \<forall>y\<in>set (schedule (clases c ! j)).
               \<not> overlaps_with x y)"
  proof (intro allI impI)
    fix i j assume "i < length (clases c)" "j < length (clases c)" "i \<noteq> j"
    from no_internal_conflict_nth[OF ni this]
    show "\<forall>x\<in>set (schedule (clases c ! i)). \<forall>y\<in>set (schedule (clases c ! j)).
               \<not> overlaps_with x y"
      by (simp add: conflicts_with_iff)
  qed
  have p2: "\<forall>f\<in>set fr. status_f f = BLOCKED \<longrightarrow>
            (\<exists>fb. to_bloque f = Inr fb
               \<and> (\<forall>k\<in>set (clases c). \<forall>x\<in>set (schedule k). \<not> overlaps_with x fb))"
  proof (intro ballI impI)
    fix f assume "f \<in> set fr" "status_f f = BLOCKED"
    from blocked_slots_of_sound[OF bl this] obtain fb where
      fb: "to_bloque f = Inr fb" "fb \<in> set bl" by blast
    from nb have "\<forall>k\<in>set (clases c). \<not> conflicts_with_blocks k bl"
      by (simp add: has_blocked_conflict_def list_ex_iff)
    then have "\<forall>k\<in>set (clases c). \<forall>x\<in>set (schedule k). \<not> overlaps_with x fb"
      using fb(2) by (auto simp: conflicts_with_blocks_iff)
    with fb(1) show "\<exists>fb. to_bloque f = Inr fb
               \<and> (\<forall>k\<in>set (clases c). \<forall>x\<in>set (schedule k). \<not> overlaps_with x fb)"
      by blast
  qed
  from p1 p2 show ?thesis by (rule conjI)
qed

theorem generated_combinations_conflict_free_witness:
  "\<exists>res c. generate_combinations ex_uuid ex_clases_by_materia [ex_blocked, ex_preferred] None = Inr res
     \<and> c \<in> set (combinations res)
     \<and> clases c = [ex_a2, ex_b1]
     \<and> (\<forall>i<length (clases c). \<forall>j<length (clases c). i \<noteq> j \<longrightarrow>
            (\<forall>x\<in>set (schedule (clases c ! i)). \<forall>y\<in>set (schedule (clases c ! j)).
               \<not> overlaps_with x y))
     \<and> (\<forall>f\<in>set [ex_blocked, ex_preferred]. status_f f = BLOCKED \<longrightarrow>
            (\<exists>fb. to_bloque f = Inr fb
               \<and> (\<forall>k\<in>set (clases c). \<forall>x\<in>set (schedule k). \<not> overlaps_with x fb)))"
proof -
  have "case generate_combinations ex_uuid ex_clases_by_materia [ex_blocked, ex_preferred] None of
          Inl _ \<Rightarrow> False
        | Inr res \<Rightarrow> map clases (combinations res) = [[ex_a2, ex_b1]]"
    by code_simp
  then obtain res where
    r: "generate_combinations ex_uuid ex_clases_by_materia [ex_blocked, ex_preferred] None = Inr res"
    and m: "map clases (combinations res) = [[ex_a2, ex_b1]]"
    by (auto split: sum.splits)
  from m obtain c where c: "c \<in> set (combinations res)" and cc: "clases c = [ex_a2, ex_b1]"
    by (cases "combinations res") auto
  from generated_combinations_conflict_free[OF r c] r c cc show ?thesis by blast
qed

text \<open>
  C4: the limit and the counters. \<open>total_generated\<close> is the number of combinations
  returned, it never exceeds \<open>total_possible\<close> nor \<open>total_checked\<close>, and
  \<open>total_checked\<close> never exceeds the number of tuples of the product; with no limit
  every tuple is visited. With a positive limit \<open>n\<close> the combinations returned are the
  first \<open>n\<close> tuples that pass both pruning tests, so at most \<open>n\<close>, and the loop stops
  as soon as the count reaches \<open>n\<close>: when the first \<open>p\<close> tuples hold \<open>n\<close> accepted
  ones and another tuple follows, at most \<open>p + 1\<close> tuples are taken from the product;
  when the \<open>n\<close>-th accepted tuple is the \<open>p\<close>-th tuple of the product and another
  tuple follows, \<open>total_checked\<close> is exactly \<open>p + 1\<close>: the \<open>p\<close> tuples examined
  (accepted or not) and the one at which the loop breaks. Conversely, when
  \<open>total_checked\<close> is less than the number of tuples, exactly \<open>n\<close> were accepted and
  the \<open>n\<close>-th one is the tuple visited just before the last one.
\<close>

theorem limit_and_counters:
  assumes "generate_combinations uuid4 cbm fr mx = Inr res"
    and "ts = itertools_product (class_options cbm)"
  shows "total_generated res = int (length (combinations res))
       \<and> total_generated res \<le> total_possible res
       \<and> total_generated res \<le> total_checked res
       \<and> 0 \<le> total_checked res \<and> total_checked res \<le> int (length ts)
       \<and> (mx = None \<longrightarrow> total_checked res = int (length ts))
       \<and> (\<forall>n bl. mx = Some n \<and> 0 < n \<and> blocked_slots_of fr = Inr bl \<longrightarrow>
            total_generated res \<le> n
            \<and> map clases (combinations res) = take (nat n) (filter (combo_ok bl) ts)
            \<and> map clases (combinations res)
                = take (nat n) (filter (combo_ok bl) (take (nat (total_checked res)) ts))
            \<and> (\<forall>p. p < length ts \<and> n \<le> int (length (filter (combo_ok bl) (take p ts))) \<longrightarrow>
                 total_checked res \<le> int p + 1)
            \<and> (\<forall>p. p < length ts
                   \<and> int (length (filter (combo_ok bl) (take p ts))) = n
                   \<and> int (length (filter (combo_ok bl) (take (p - 1) ts))) = n - 1 \<longrightarrow>
                 total_checked res = int p + 1)
            \<and> (total_checked res < int (length ts) \<longrightarrow>
                 total_generated res = n
                 \<and> 2 \<le> total_checked res
                 \<and> int (length (filter (combo_ok bl) (take (nat (total_checked res) - 1) ts))) = n
                 \<and> int (length (filter (combo_ok bl) (take (nat (total_checked res) - 2) ts)))
                     = n - 1))"
proof -
  from assms(1) obtain bl vc chk where bl: "blocked_slots_of fr = Inr bl"
    and g: "gen_loop uuid4 fr bl mx ts [] 0 = Inr (vc, chk)"
    and vc: "combinations res = vc" and chk: "total_checked res = chk"
    and gen: "total_generated res = int (length vc)"
    and pos: "total_possible res = calc_total_possible (class_options cbm)"
    unfolding assms(2) by (rule generate_combinations_unfold)
  from gen_loop_counts[OF g] have cnt: "0 \<le> chk" "chk \<le> int (length ts)" "int (length vc) \<le> chk"
    by simp_all
  have tp: "int (length ts) \<le> calc_total_possible (class_options cbm)"
    unfolding assms(2) by (rule tuples_le_total_possible)
  have a1: "total_generated res = int (length (combinations res))" using gen vc by simp
  have a2: "total_generated res \<le> total_possible res" using gen pos cnt tp by linarith
  have a3: "total_generated res \<le> total_checked res" using gen chk cnt by simp
  have a4: "0 \<le> total_checked res \<and> total_checked res \<le> int (length ts)" using chk cnt by simp
  have a5: "mx = None \<longrightarrow> total_checked res = int (length ts)"
  proof
    assume "mx = None"
    then have "\<not> (\<exists>n. mx = Some n \<and> n \<noteq> 0)" by simp
    from gen_loop_unlimited[OF this g] chk show "total_checked res = int (length ts)" by simp
  qed
  have a6: "\<forall>n bl. mx = Some n \<and> 0 < n \<and> blocked_slots_of fr = Inr bl \<longrightarrow>
            total_generated res \<le> n
            \<and> map clases (combinations res) = take (nat n) (filter (combo_ok bl) ts)
            \<and> map clases (combinations res)
                = take (nat n) (filter (combo_ok bl) (take (nat (total_checked res)) ts))
            \<and> (\<forall>p. p < length ts \<and> n \<le> int (length (filter (combo_ok bl) (take p ts))) \<longrightarrow>
                 total_checked res \<le> int p + 1)
            \<and> (\<forall>p. p < length ts
                   \<and> int (length (filter (combo_ok bl) (take p ts))) = n
                   \<and> int (length (filter (combo_ok bl) (take (p - 1) ts))) = n - 1 \<longrightarrow>
                 total_checked res = int p + 1)
            \<and> (total_checked res < int (length ts) \<longrightarrow>
                 total_generated res = n
                 \<and> 2 \<le> total_checked res
                 \<and> int (length (filter (combo_ok bl) (take (nat (total_checked res) - 1) ts))) = n
                 \<and> int (length (filter (combo_ok bl) (take (nat (total_checked res) - 2) ts)))
                     = n - 1)"
  proof (intro allI impI)
    fix n bl'
    assume h: "mx = Some n \<and> 0 < n \<and> blocked_slots_of fr = Inr bl'"
    then have mx: "mx = Some n" and n: "0 < n" and bl': "bl' = bl" using bl by simp_all
    have "int (length ([] :: HorarioCombination list)) \<le> n" using n by simp
    from gen_loop_limited[OF mx n g this] obtain j where
      j: "chk = int j" "j \<le> length ts"
      and m1: "map clases vc = take (nat n) (filter (combo_ok bl) ts)"
      and m2: "map clases vc = take (nat n) (filter (combo_ok bl) (take j ts))"
      and st: "j < length ts \<longrightarrow>
            1 \<le> j \<and> int (length (filter (combo_ok bl) (take (j - 1) ts))) = n
            \<and> (2 \<le> j \<longrightarrow> int (length (filter (combo_ok bl) (take (j - 2) ts))) = n - 1)"
      by auto
    have le: "total_generated res \<le> n"
    proof -
      have "length (map clases vc) \<le> nat n" unfolding m1 by simp
      then show ?thesis using gen n by simp
    qed
    have stops: "\<forall>p. p < length ts \<and> n \<le> int (length (filter (combo_ok bl) (take p ts))) \<longrightarrow>
                 total_checked res \<le> int p + 1"
    proof (intro allI impI)
      fix p
      assume "p < length ts \<and> n \<le> int (length (filter (combo_ok bl) (take p ts)))"
      then have p: "p < length ts"
        and "n \<le> int (length ([] :: HorarioCombination list))
                    + int (length (filter (combo_ok bl) (take p ts)))"
        by simp_all
      from gen_loop_stops[OF mx n g this] chk show "total_checked res \<le> int p + 1" by simp
    qed
    have exact: "\<forall>p. p < length ts
                   \<and> int (length (filter (combo_ok bl) (take p ts))) = n
                   \<and> int (length (filter (combo_ok bl) (take (p - 1) ts))) = n - 1 \<longrightarrow>
                 total_checked res = int p + 1"
    proof (intro allI impI)
      fix p
      assume a: "p < length ts
                   \<and> int (length (filter (combo_ok bl) (take p ts))) = n
                   \<and> int (length (filter (combo_ok bl) (take (p - 1) ts))) = n - 1"
      then have p: "p < length ts"
        and fp: "int (length (filter (combo_ok bl) (take p ts))) = n"
        and fp1: "int (length (filter (combo_ok bl) (take (p - 1) ts))) = n - 1"
        by simp_all
      from stops p fp have up: "total_checked res \<le> int p + 1" by simp
      have "p < j"
      proof (rule ccontr)
        assume "\<not> p < j"
        then have jp: "j \<le> p" by simp
        with p have "j < length ts" by simp
        with st have j1: "1 \<le> j"
          and fj: "int (length (filter (combo_ok bl) (take (j - 1) ts))) = n" by simp_all
        from jp j1 have "j - 1 \<le> p - 1" by simp
        from filter_take_mono[OF this, of "combo_ok bl" ts] fj fp1 show False by simp
      qed
      with up chk j show "total_checked res = int p + 1" by simp
    qed
    have early: "total_checked res < int (length ts) \<longrightarrow>
                 total_generated res = n
                 \<and> 2 \<le> total_checked res
                 \<and> int (length (filter (combo_ok bl) (take (nat (total_checked res) - 1) ts))) = n
                 \<and> int (length (filter (combo_ok bl) (take (nat (total_checked res) - 2) ts)))
                     = n - 1"
    proof
      assume "total_checked res < int (length ts)"
      then have jl: "j < length ts" using chk j by simp
      with st have j1: "1 \<le> j"
        and f1: "int (length (filter (combo_ok bl) (take (j - 1) ts))) = n"
        and f2: "2 \<le> j \<longrightarrow> int (length (filter (combo_ok bl) (take (j - 2) ts))) = n - 1"
        by simp_all
      have "j - 1 \<noteq> 0"
      proof
        assume "j - 1 = 0"
        with f1 n show False by simp
      qed
      then have j2: "2 \<le> j" by simp
      have "length (filter (combo_ok bl) (take (j - 1) ts)) \<le> length (filter (combo_ok bl) (take j ts))"
        by (rule filter_take_mono) simp
      with f1 have "nat n \<le> length (filter (combo_ok bl) (take j ts))" by simp
      then have "length (map clases vc) = nat n" unfolding m2 by simp
      then have "total_generated res = n" using gen n by simp
      with j2 f1 f2 chk j show "total_generated res = n
                 \<and> 2 \<le> total_checked res
                 \<and> int (length (filter (combo_ok bl) (take (nat (total_checked res) - 1) ts))) = n
                 \<and> int (length (filter (combo_ok bl) (take (nat (total_checked res) - 2) ts)))
                     = n - 1"
        by simp
    qed
    from m1 vc have m1': "map clases (combinations res) = take (nat n) (filter (combo_ok bl) ts)"
      by simp
    from m2 vc chk j have m2': "map clases (combinations res)
                = take (nat n) (filter (combo_ok bl) (take (nat (total_checked res)) ts))"
      by simp
    from le m1' m2' stops exact early
    show "total_generated res \<le> n
            \<and> map clases (combinations res) = take (nat n) (filter (combo_ok bl') ts)
            \<and> map clases (combinations res)
                = take (nat n) (filter (combo_ok bl') (take (nat (total_checked res)) ts))
            \<and> (\<forall>p. p < length ts \<and> n \<le> int (length (filter (combo_ok bl') (take p ts))) \<longrightarrow>
                 total_checked res \<le> int p + 1)
            \<and> (\<forall>p. p < length ts
                   \<and> int (length (filter (combo_ok bl') (take p ts))) = n
                   \<and> int (length (filter (combo_ok bl') (take (p - 1) ts))) = n - 1 \<longrightarrow>
                 total_checked res = int p + 1)
            \<and> (total_checked res < int (length ts) \<longrightarrow>
                 total_generated res = n
                 \<and> 2 \<le> total_checked res
                 \<and> int (length (filter (combo_ok bl') (take (nat (total_checked res) - 1) ts))) = n
                 \<and> int (length (filter (combo_ok bl') (take (nat (total_checked res) - 2) ts)))
                     = n - 1)"
      unfolding bl' by (intro conjI)
  qed
  from a1 a2 a3 a4 a5 a6 show ?thesis by blast
qed

theorem limit_and_counters_witness:
  "\<exists>res. generate_combinations ex_uuid ex_clases_by_materia [] (Some 1) = Inr res
     \<and> blocked_slots_of [] = Inr []
     \<and> total_generated res = 1 \<and> total_checked res = 3 \<and> total_possible res = 4
     \<and> length (itertools_product (class_options ex_clases_by_materia)) = 4
     \<and> map clases (combinations res) = [[ex_a1, ex_b2]]
     \<and> filter (combo_ok []) (take 2 (itertools_product (class_options ex_clases_by_materia)))
          = [[ex_a1, ex_b2]]
     \<and> filter (combo_ok []) (take 1 (itertools_product (class_options ex_clases_by_materia))) = []"
proof -
  have "franjas_ok []" by (simp add: franjas_ok_def)
  then obtain res where
    r: "generate_combinations ex_uuid ex_clases_by_materia [] (Some 1) = Inr res"
    using generate_combinations_returns by blast
  have p4: "total_possible res = 4"
  proof -
    have "calc_total_possible (class_options ex_clases_by_materia) = 4" by code_simp
    with r show ?thesis by (elim generate_combinations_unfold) simp
  qed
  have bl: "blocked_slots_of [] = Inr []" by simp
  have len: "length (itertools_product (class_options ex_clases_by_materia)) = 4" by code_simp
  have f2: "filter (combo_ok []) (take 2 (itertools_product (class_options ex_clases_by_materia)))
          = [[ex_a1, ex_b2]]" by code_simp
  have f1: "filter (combo_ok []) (take 1 (itertools_product (class_options ex_clases_by_materia))) = []"
    by code_simp
  have f: "take (nat 1) (filter (combo_ok []) (itertools_product (class_options ex_clases_by_materia)))
          = [[ex_a1, ex_b2]]" by code_simp
  have pre: "Some (1::int) = Some 1 \<and> (0::int) < 1 \<and> blocked_slots_of [] = Inr []" by simp
  note t = limit_and_counters[OF r refl]
  note t6 = t[THEN conjunct2, THEN conjunct2, THEN conjunct2, THEN conjunct2, THEN conjunct2,
      THEN conjunct2, rule_format, OF pre]
  note ex = t6[THEN conjunct2, THEN conjunct2, THEN conjunct2, THEN conjunct2, THEN conjunct1,
      rule_format, of 2]
  have "2 < length (itertools_product (class_options ex_clases_by_materia))
        \<and> int (length (filter (combo_ok []) (take 2 (itertools_product (class_options ex_clases_by_materia))))) = 1
        \<and> int (length (filter (combo_ok []) (take (2 - 1) (itertools_product (class_options ex_clases_by_materia))))) = 1 - 1"
    using len f2 f1 by simp
  from ex[OF this] have c3: "total_checked res = 3" by simp
  from t6 have "total_checked res < int (length (itertools_product (class_options ex_clases_by_materia)))
      \<longrightarrow> total_generated res = 1" by blast
  with c3 len have g: "total_generated res = 1" by simp
  from t6 have "map clases (combinations res)
      = take (nat 1) (filter (combo_ok []) (itertools_product (class_options ex_clases_by_materia)))"
    by blast
  with f have m: "map clases (combinations res) = [[ex_a1, ex_b2]]" by simp
  from r bl g c3 p4 len m f2 f1 show ?thesis by (intro exI[of _ res] conjI)
qed

lemma itertools_product_empty: "[] \<in> set xss \<Longrightarrow> itertools_product xss = []"
  by (induction xss) auto

lemma calc_total_possible_pos: "1 \<le> calc_total_possible opts"
proof -
  have "1 \<le> prod_list (map (\<lambda>options. if options \<noteq> [] then int (length options) else 1) opts)"
  proof (induction opts)
    case Nil
    then show ?case by simp
  next
    case (Cons o1 opts)
    have "1 \<le> (if o1 \<noteq> [] then int (length o1) else 1)" by (cases o1) auto
    with Cons have "1 * 1 \<le> (if o1 \<noteq> [] then int (length o1) else 1)
        * prod_list (map (\<lambda>options. if options \<noteq> [] then int (length options) else 1) opts)"
      by (intro mult_mono) simp_all
    then show ?case by simp
  qed
  then show ?thesis by (simp add: calc_total_possible_def fold_total_possible)
qed

text \<open>
  C3: a course with no section. \<open>total_possible\<close> counts a course whose list of
  sections is empty as a factor 1 (so the count is at least 1), but
  \<open>itertools.product\<close> over a family that holds an empty list yields no tuple: for
  every input in which some course has no section, the loop body never runs, the result
  holds no combination, and \<open>total_generated\<close> and \<open>total_checked\<close> are 0. On the map
  \<open>{'A': [a1, a2], 'C': []}\<close> the count is 2 and no combination over the remaining
  course \<open>A\<close> is produced, although the product over \<open>A\<close> alone has two tuples.
\<close>

theorem empty_section_list_yields_no_combination:
  assumes "[] \<in> set (class_options cbm)"
  shows "itertools_product (class_options cbm) = []
       \<and> (\<forall>res. generate_combinations uuid4 cbm fr mx = Inr res \<longrightarrow>
             combinations res = [] \<and> total_generated res = 0 \<and> total_checked res = 0
             \<and> 1 \<le> total_possible res)
       \<and> (franjas_ok fr \<longrightarrow> (\<exists>res. generate_combinations uuid4 cbm fr mx = Inr res))"
proof (intro conjI allI impI)
  show e: "itertools_product (class_options cbm) = []"
    using assms by (rule itertools_product_empty)
  fix res assume "generate_combinations uuid4 cbm fr mx = Inr res"
  then obtain bl vc chk where
    g: "gen_loop uuid4 fr bl mx (itertools_product (class_options cbm)) [] 0 = Inr (vc, chk)"
    and r: "combinations res = vc" "total_checked res = chk" "total_generated res = int (length vc)"
      "total_possible res = calc_total_possible (class_options cbm)"
    by (rule generate_combinations_unfold)
  from g e have "vc = []" "chk = 0" by simp_all
  with r calc_total_possible_pos[of "class_options cbm"]
  show "combinations res = []" "total_generated res = 0" "total_checked res = 0"
    "1 \<le> total_possible res" by simp_all
next
  assume "franjas_ok fr"
  then show "\<exists>res. generate_combinations uuid4 cbm fr mx = Inr res"
    by (rule generate_combinations_returns)
qed

theorem empty_section_list_yields_no_combination_witness:
  "[] \<in> set (class_options [(''A'', [ex_a1, ex_a2]), (''C'', [])])
   \<and> itertools_product (class_options [(''A'', [ex_a1, ex_a2]), (''C'', [])]) = []
   \<and> itertools_product (class_options [(''A'', [ex_a1, ex_a2])]) = [[ex_a1], [ex_a2]]
   \<and> generate_combinations ex_uuid [(''A'', [ex_a1, ex_a2]), (''C'', [])] [] None
     = Inr \<lparr>combinations = [], total_generated = 0, total_possible = 2, total_checked = 0,
            warning = None\<rparr>"
proof -
  have a: "[] \<in> set (class_options [(''A'', [ex_a1, ex_a2]), (''C'', [])])"
    by (simp add: class_options_def)
  from empty_section_list_yields_no_combination[OF a] have b: "itertools_product (class_options [(''A'', [ex_a1, ex_a2]), (''C'', [])]) = []"
    by blast
  have c: "itertools_product (class_options [(''A'', [ex_a1, ex_a2])]) = [[ex_a1], [ex_a2]]"
    by (simp add: class_options_def)
  have d: "generate_combinations ex_uuid [(''A'', [ex_a1, ex_a2]), (''C'', [])] [] None
     = Inr \<lparr>combinations = [], total_generated = 0, total_possible = 2, total_checked = 0,
            warning = None\<rparr>" by code_simp
  from a b c d show ?thesis by (intro conjI)
qed

section \<open>The claims about the metrics and the sort\<close>







lemma insort_key_map_pair:
  "insort_key fst (k x, x) (map (\<lambda>y. (k y, y)) ys) = map (\<lambda>y. (k y, y)) (insort_key k x ys)"
  by (induction ys) simp_all

lemma sort_key_zip_keys:
  "map snd (sort_key fst (zip (map k xs) xs)) = sort_key k xs"
proof -
  have z: "zip (map k ys) ys = map (\<lambda>y. (k y, y)) ys" for ys by (induction ys) simp_all
  have "sort_key fst (map (\<lambda>y. (k y, y)) xs) = map (\<lambda>y. (k y, y)) (sort_key k xs)"
    by (induction xs) (simp_all add: insort_key_map_pair)
  then show ?thesis by (simp add: z comp_def)
qed

lemma map_err_Inr: "map_err (\<lambda>c. Inr (k c)) xs = Inr (map k xs)"
  by (induction xs) simp_all

lemma sorted_rev_of_neg:
  fixes g :: "'a \<Rightarrow> int"
  shows "sorted (map (\<lambda>c. - g c) ys) \<Longrightarrow> sorted (rev (map g ys))"
  by (induction ys) (auto simp: sorted_append)

lemma rev_sort_key_neg:
  fixes g :: "'a \<Rightarrow> int"
  shows "rev (sort_key (\<lambda>c. - g c) (rev xs)) = sort_key g xs"
proof (rule properties_for_sort_key[symmetric])
  show "mset (rev (sort_key (\<lambda>c. - g c) (rev xs))) = mset xs" by simp
next
  fix k assume "k \<in> set (rev (sort_key (\<lambda>c. - g c) (rev xs)))"
  have "filter (\<lambda>x. - g x = - g k) (sort_key (\<lambda>c. - g c) (rev xs))
        = filter (\<lambda>x. - g x = - g k) (rev xs)"
    by (rule sort_key_stable)
  moreover have "(\<lambda>x. g k = g x) = (\<lambda>x. - g x = - g k)" by auto
  ultimately show "filter (\<lambda>x. g k = g x) (rev (sort_key (\<lambda>c. - g c) (rev xs)))
        = filter (\<lambda>x. g k = g x) xs"
    by (simp add: rev_filter[symmetric])
next
  have "sorted (map (\<lambda>c. - g c) (sort_key (\<lambda>c. - g c) (rev xs)))" by simp
  then have "sorted (rev (map g (sort_key (\<lambda>c. - g c) (rev xs))))"
    by (rule sorted_rev_of_neg)
  then show "sorted (map g (rev (sort_key (\<lambda>c. - g c) (rev xs))))" by (simp add: rev_map)
qed

lemma filter_by_int_returns:
  "(case filters key of Some (PStr s) \<Rightarrow> False | _ \<Rightarrow> True) \<Longrightarrow>
     \<exists>out. filter_by_int filters key keep xs = Inr out"
  by (auto simp: filter_by_int_def split: option.splits pyval.splits)

lemma filter_by_time_off:
  "(case filters key of None \<Rightarrow> True | Some v \<Rightarrow> \<not> truthy v) \<Longrightarrow>
     filter_by_time filters key field keep xs = Inr xs"
  by (auto simp: filter_by_time_def split: option.splits)

lemma apply_filters_returns:
  assumes "numeric_filters_ok filters" and "time_filters_off filters"
  shows "\<exists>filtered. apply_filters combs filters = Inr filtered"
proof -
  from assms(1) have n: "case filters ''min_free_days'' of Some (PStr s) \<Rightarrow> False | _ \<Rightarrow> True"
    "case filters ''max_gaps'' of Some (PStr s) \<Rightarrow> False | _ \<Rightarrow> True"
    "case filters ''max_gap_minutes'' of Some (PStr s) \<Rightarrow> False | _ \<Rightarrow> True"
    by (simp_all add: numeric_filters_ok_def)
  from assms(2) have t: "case filters ''earliest_start'' of None \<Rightarrow> True | Some v \<Rightarrow> \<not> truthy v"
    "case filters ''latest_end'' of None \<Rightarrow> True | Some v \<Rightarrow> \<not> truthy v"
    by (simp_all add: time_filters_off_def)
  obtain f1 where f1: "filter_by_int filters ''min_free_days'' (\<lambda>c n. free_days c \<ge> n) combs = Inr f1"
    using filter_by_int_returns[where filters = filters and key = "''min_free_days''"] n(1) by blast
  obtain f2 where f2: "filter_by_int filters ''max_gaps'' (\<lambda>c n. gaps_count c \<le> n) f1 = Inr f2"
    using filter_by_int_returns[where filters = filters and key = "''max_gaps''"] n(2) by blast
  obtain f3 where f3: "filter_by_int filters ''max_gap_minutes'' (\<lambda>c n. gaps_minutes c \<le> n) f2 = Inr f3"
    using filter_by_int_returns[where filters = filters and key = "''max_gap_minutes''"] n(3) by blast
  have t1: "filter_by_time filters ''earliest_start'' field keep xs = Inr xs" for field keep xs
    using filter_by_time_off[where filters = filters and key = "''earliest_start''"] t(1) by blast
  have t2: "filter_by_time filters ''latest_end'' field keep xs = Inr xs" for field keep xs
    using filter_by_time_off[where filters = filters and key = "''latest_end''"] t(2) by blast
  show ?thesis by (simp add: apply_filters_def f1 f2 f3 t1 t2)
qed

text \<open>
  C2: sorting by a gap metric is always ascending. When \<open>sort_by\<close> is
  \<open>gaps_count\<close> or \<open>gaps_minutes\<close>, \<open>filter_combinations\<close> raises exactly when the
  filters raise, and otherwise returns the filtered list sorted stably in ascending
  order of that metric, whatever \<open>sort_order\<close> is: with \<open>asc\<close> the key is the negated
  metric and the sort is reversed, with any other value the key is the metric and the
  sort is not reversed. When the numeric filters are not strings and the time filters
  are off, the call returns.
\<close>
theorem gaps_sort_is_always_ascending:
  assumes "filters ''sort_by'' = Some (PStr k)"
    and "k = ''gaps_count'' \<or> k = ''gaps_minutes''"
  shows "filter_combinations combs filters
           = (case apply_filters combs filters of
                Inl e \<Rightarrow> Inl e
              | Inr filtered \<Rightarrow> Inr (sort_key (gaps_metric k) filtered))
         \<and> (\<forall>out. filter_combinations combs filters = Inr out \<longrightarrow>
               sorted (map (gaps_metric k) out))
         \<and> (numeric_filters_ok filters \<and> time_filters_off filters \<longrightarrow>
               (\<exists>out. filter_combinations combs filters = Inr out))"
proof -
  define r where "r = ((case filters ''sort_order'' of None \<Rightarrow> PStr ''desc'' | Some v \<Rightarrow> v)
                        = PStr ''asc'')"
  have km: "sort_key_map r k = Some (\<lambda>c. Inr (if r then - gaps_metric k c else gaps_metric k c))"
    using assms(2)
  proof
    assume k: "k = ''gaps_count''"
    show ?thesis unfolding k by (simp add: sort_key_map_def gaps_metric_def cong: if_cong)
  next
    assume k: "k = ''gaps_minutes''"
    show ?thesis unfolding k by (simp add: sort_key_map_def gaps_metric_def cong: if_cong)
  qed
  have sc: "sort_combinations filters filtered
            = list_sort (\<lambda>c. Inr (if r then - gaps_metric k c else gaps_metric k c)) r filtered"
    for filtered
    using assms(2) by (simp add: sort_combinations_def Let_def assms(1) r_def[symmetric] km)
  have srt: "sort_combinations filters filtered = Inr (sort_key (gaps_metric k) filtered)"
    for filtered
  proof (cases r)
    case True
    have "list_sort (\<lambda>c. Inr (- gaps_metric k c)) True filtered
            = Inr (sort_key (gaps_metric k) filtered)"
    proof -
      have "rev (zip (map (\<lambda>c. - gaps_metric k c) filtered) filtered)
            = zip (map (\<lambda>c. - gaps_metric k c) (rev filtered)) (rev filtered)"
        by (simp add: zip_rev[symmetric] rev_map)
      then have "map snd (rev (sort_key fst (rev (zip (map (\<lambda>c. - gaps_metric k c) filtered) filtered))))
            = rev (map snd (sort_key fst (zip (map (\<lambda>c. - gaps_metric k c) (rev filtered)) (rev filtered))))"
        by (simp add: rev_map)
      also have "\<dots> = rev (sort_key (\<lambda>c. - gaps_metric k c) (rev filtered))"
        by (simp only: sort_key_zip_keys)
      also have "\<dots> = sort_key (gaps_metric k) filtered" by (rule rev_sort_key_neg)
      finally show ?thesis by (simp add: list_sort_def map_err_Inr py_sort_def)
    qed
    with True show ?thesis by (simp add: sc)
  next
    case False
    have "list_sort (\<lambda>c. Inr (gaps_metric k c)) False filtered
            = Inr (sort_key (gaps_metric k) filtered)"
      by (simp add: list_sort_def map_err_Inr py_sort_def sort_key_zip_keys)
    with False show ?thesis by (simp add: sc)
  qed
  have eq: "filter_combinations combs filters
           = (case apply_filters combs filters of
                Inl e \<Rightarrow> Inl e
              | Inr filtered \<Rightarrow> Inr (sort_key (gaps_metric k) filtered))"
    by (cases "apply_filters combs filters") (simp_all add: filter_combinations_def srt)
  have srtd: "sorted (map (gaps_metric k) out)" if "filter_combinations combs filters = Inr out" for out
    using that unfolding eq by (cases "apply_filters combs filters") auto
  have ret: "\<exists>out. filter_combinations combs filters = Inr out"
    if "numeric_filters_ok filters \<and> time_filters_off filters"
  proof -
    from that obtain filtered where "apply_filters combs filters = Inr filtered"
      using apply_filters_returns by blast
    then show ?thesis unfolding eq by simp
  qed
  from eq srtd ret show ?thesis by blast
qed

theorem gaps_sort_is_always_ascending_witness:
  "ex_filters ''desc'' ''sort_by'' = Some (PStr ''gaps_count'')
   \<and> numeric_filters_ok (ex_filters ''desc'') \<and> time_filters_off (ex_filters ''desc'')
   \<and> filter_combinations [ex_gaps 2, ex_gaps 0, ex_gaps 1] (ex_filters ''desc'')
       = Inr [ex_gaps 0, ex_gaps 1, ex_gaps 2]
   \<and> filter_combinations [ex_gaps 2, ex_gaps 0, ex_gaps 1] (ex_filters ''asc'')
       = Inr [ex_gaps 0, ex_gaps 1, ex_gaps 2]
   \<and> sorted (map (gaps_metric ''gaps_count'') [ex_gaps 0, ex_gaps 1, ex_gaps 2])"
proof -
  have a: "ex_filters ''desc'' ''sort_by'' = Some (PStr ''gaps_count'')"
    by (simp add: ex_filters_def)
  have b: "''gaps_count'' = ''gaps_count'' \<or> ''gaps_count'' = ''gaps_minutes''" by simp
  have c: "filter_combinations [ex_gaps 2, ex_gaps 0, ex_gaps 1] (ex_filters ''desc'')
       = Inr [ex_gaps 0, ex_gaps 1, ex_gaps 2]" by code_simp
  have d: "filter_combinations [ex_gaps 2, ex_gaps 0, ex_gaps 1] (ex_filters ''asc'')
       = Inr [ex_gaps 0, ex_gaps 1, ex_gaps 2]" by code_simp
  from gaps_sort_is_always_ascending[where filters = "ex_filters ''desc''"
      and k = "''gaps_count''" and combs = "[ex_gaps 2, ex_gaps 0, ex_gaps 1]", OF a b] c
  have e: "sorted (map (gaps_metric ''gaps_count'') [ex_gaps 0, ex_gaps 1, ex_gaps 2])" by blast
  have n: "numeric_filters_ok (ex_filters ''desc'')" by code_simp
  have t: "time_filters_off (ex_filters ''desc'')" by code_simp
  from a n t c d e show ?thesis by (intro conjI)
qed

section \<open>The claims about the catalog service\<close>

text \<open>
  C7: the loss simulation. On the chain where MATH2 requires MATH1 and MATH3 requires
  MATH2, losing MATH1 gives MATH2 directly blocked, MATH3 indirectly blocked and
  \<open>total_blocked_courses = 2\<close>. When MATH3 also names MATH1 as a corequisite, and MATH4
  requires MATH3, the corequisite loop marks MATH3 as visited without queueing it: the
  search started from MATH2 then skips MATH3, so neither MATH3 nor MATH4, both
  transitive prerequisite-dependents of MATH2, is in \<open>indirectly_blocked\<close>, and
  \<open>total_blocked_courses\<close> is 1.
\<close>
theorem coreq_dependent_cuts_the_chain:
  "simulate_course_loss ''MATH1'' ex_chain
     = Inr \<lparr>lost_course = materia_info ex_math1,
            directly_blocked = [materia_info ex_math2],
            indirectly_blocked = [materia_info ex_math3],
            corequisite_affected = [],
            total_blocked_courses = 2, total_blocked_credits = 7\<rparr>
   \<and> simulate_course_loss ''MATH1'' ex_chain_coreq
     = Inr \<lparr>lost_course = materia_info ex_math1,
            directly_blocked = [materia_info ex_math2],
            indirectly_blocked = [],
            corequisite_affected = [materia_info ex_math3_coreq],
            total_blocked_courses = 1, total_blocked_credits = 3\<rparr>"
  by code_simp

text \<open>
  C9: deleting a course. The loop that collects the dependents runs over every course
  of the catalog, the course to delete included. For a catalog whose only course names
  itself as a prerequisite, no other course references the code, yet \<open>delete_materia\<close>
  returns the error with the course as its own dependent and leaves the catalog
  unchanged.
\<close>
theorem self_reference_blocks_delete:
  "delete_materia ''MATH1'' ex_self = (DeleteHasDependents [''MATH1''], ex_self)
   \<and> filter (\<lambda>m. code m \<noteq> ''MATH1''
                 \<and> (''MATH1'' \<in> set (prerequisites m) \<or> ''MATH1'' \<in> set (corequisites m)))
        (materias ex_self) = []"
  by code_simp

section \<open>The claims about the catalog service: cycle detection\<close>

lemma dict_get_append:
  "dict_get (dict_append d k v) u = (if u = k then dict_get d k @ [v] else dict_get d u)"
proof (cases "k \<in> set (map fst d)")
  case True
  have m: "map_of (map (\<lambda>(k', vs). if k' = k then (k', vs @ [v]) else (k', vs)) d) u
        = map_option (\<lambda>vs. if u = k then vs @ [v] else vs) (map_of d u)"
    by (induction d) auto
  from True have "map_of d k \<noteq> None" by (simp add: map_of_eq_None_iff)
  then obtain vs where "map_of d k = Some vs" by auto
  with True m show ?thesis
    by (cases "map_of d u") (auto simp: dict_get_def dict_append_def)
next
  case False
  then have "map_of d k = None" by (simp add: map_of_eq_None_iff)
  with False show ?thesis
    by (auto simp: dict_get_def dict_append_def map_add_def split: option.splits)
qed

lemma graph_of_add_edge:
  assumes "graph_of g d E"
  shows "graph_of (fst (add_edge codes mc p (g, d))) (snd (add_edge codes mc p (g, d)))
           (E @ (if p \<in> set codes then [(p, mc)] else []))"
  using assms by (simp add: add_edge_def graph_of_def dict_get_append)

lemma graph_of_fold_add_edge:
  "graph_of (fst st) (snd st) E \<Longrightarrow>
   graph_of (fst (fold (add_edge codes mc) ps st)) (snd (fold (add_edge codes mc) ps st))
     (E @ map (\<lambda>p. (p, mc)) (filter (\<lambda>p. p \<in> set codes) ps))"
proof (induction ps arbitrary: st E)
  case Nil
  then show ?case by simp
next
  case (Cons p ps)
  from graph_of_add_edge[OF Cons.prems, of codes mc p]
  have "graph_of (fst (add_edge codes mc p st)) (snd (add_edge codes mc p st))
           (E @ (if p \<in> set codes then [(p, mc)] else []))" by simp
  from Cons.IH[OF this] show ?case by (cases "p \<in> set codes") simp_all
qed

lemma graph_of_fold_materias:
  "graph_of (fst st) (snd st) E \<Longrightarrow>
   graph_of
     (fst (fold (\<lambda>materia st. fold (add_edge codes (code materia))
                   (prerequisites materia @ corequisites materia) st) ms st))
     (snd (fold (\<lambda>materia st. fold (add_edge codes (code materia))
                   (prerequisites materia @ corequisites materia) st) ms st))
     (E @ edges_from (set codes) ms)"
proof (induction ms arbitrary: st E)
  case Nil
  then show ?case by (simp add: edges_from_def)
next
  case (Cons m ms)
  from graph_of_fold_add_edge[OF Cons.prems, of codes "code m" "prerequisites m @ corequisites m"]
  have "graph_of
      (fst (fold (add_edge codes (code m)) (prerequisites m @ corequisites m) st))
      (snd (fold (add_edge codes (code m)) (prerequisites m @ corequisites m) st))
      (E @ map (\<lambda>p. (p, code m)) (filter (\<lambda>p. p \<in> set codes) (prerequisites m @ corequisites m)))" .
  from Cons.IH[OF this] show ?case by (simp add: edges_from_def)
qed

lemma graph_of_build_graph:
  "graph_of (fst (build_graph codes pensum)) (snd (build_graph codes pensum))
     (edges_from (set codes) (materias pensum))"
proof -
  have "graph_of (fst ([], \<lambda>_. 0)) (snd ([], \<lambda>_. 0)) []"
    by (simp add: graph_of_def dict_get_def)
  from graph_of_fold_materias[OF this, of codes "materias pensum"]
  show ?thesis by (simp add: build_graph_def)
qed

lemma relax_spec:
  "\<forall>v. int (count_list ns v) \<le> d v \<Longrightarrow> relax ns (d, q) = (d', q') \<Longrightarrow>
     d' = (\<lambda>v. d v - int (count_list ns v))
     \<and> (\<exists>new. q' = q @ new \<and> distinct new
            \<and> set new = {v \<in> set ns. d v = int (count_list ns v)})"
proof (induction ns arbitrary: d q)
  case Nil
  then show ?case by simp
next
  case (Cons n ns)
  let ?d1 = "d(n := d n - 1)"
  let ?q1 = "if ?d1 n = 0 then q @ [n] else q"
  from Cons.prems(2) have r: "relax ns (?d1, ?q1) = (d', q')" by (simp add: Let_def)
  have pre: "\<forall>v. int (count_list ns v) \<le> ?d1 v"
  proof
    fix v
    from Cons.prems(1) have "int (count_list (n # ns) v) \<le> d v" by blast
    then show "int (count_list ns v) \<le> ?d1 v" by (cases "v = n") auto
  qed
  from Cons.IH[OF pre r] obtain new where
    d': "d' = (\<lambda>v. ?d1 v - int (count_list ns v))"
    and q': "q' = ?q1 @ new" and dn: "distinct new"
    and sn: "set new = {v \<in> set ns. ?d1 v = int (count_list ns v)}"
    by blast
  have c1: "d' = (\<lambda>v. d v - int (count_list (n # ns) v))"
    unfolding d' by (rule ext) simp
  show ?case
  proof (cases "?d1 n = 0")
    case True
    with pre have "count_list ns n = 0"
      by (metis of_nat_le_0_iff)
    then have nn: "n \<notin> set ns" by (simp add: count_list_0_iff)
    have "q' = q @ (n # new)" using q' True by simp
    moreover have "distinct (n # new)" using dn sn nn by simp
    moreover have "set (n # new) = {v \<in> set (n # ns). d v = int (count_list (n # ns) v)}"
      using sn True nn \<open>count_list ns n = 0\<close> by auto
    ultimately show ?thesis using c1 by blast
  next
    case False
    have "q' = q @ new" using q' False by simp
    moreover have "set new = {v \<in> set (n # ns). d v = int (count_list (n # ns) v)}"
    proof -
      have "n \<in> set ns" if "d n = int (count_list ns n) + 1"
      proof (rule ccontr)
        assume "n \<notin> set ns"
        then have "count_list ns n = 0" by (simp add: count_list_0_iff)
        with that False show False by simp
      qed
      then show ?thesis using sn by auto
    qed
    ultimately show ?thesis using c1 dn by blast
  qed
qed

lemma length_filter_split:
  "length (filter P xs) = length (filter (\<lambda>x. P x \<and> Q x) xs) + length (filter (\<lambda>x. P x \<and> \<not> Q x) xs)"
  by (induction xs) auto

lemma count_list_map_snd_filter:
  "count_list (map snd (filter (\<lambda>e. fst e = c) E)) v = length (filter (\<lambda>e. fst e = c \<and> snd e = v) E)"
  by (induction E) auto

lemma kahn_step:
  assumes inv: "kahn_inv E codes ps (c # q) d"
    and ok: "\<forall>e\<in>set E. fst e \<in> set codes \<and> snd e \<in> set codes"
    and r: "relax (map snd (filter (\<lambda>e. fst e = c) E)) (d, q) = (d', q')"
  shows "kahn_inv E codes (ps @ [c]) q' d'"
proof -
  let ?ns = "map snd (filter (\<lambda>e. fst e = c) E)"
  from inv have dist: "distinct (ps @ c # q)" and sub: "set (ps @ c # q) \<subseteq> set codes"
    by (simp_all add: kahn_inv_def)
  from inv have dv: "d v = int (length (filter (\<lambda>e. snd e = v \<and> fst e \<notin> set ps) E))" for v
    by (simp add: kahn_inv_def)
  from inv have z: "(d v = 0) = (v \<in> set ps \<union> set (c # q))" if "v \<in> set codes" for v
    using that unfolding kahn_inv_def by blast
  from inv have ord: "u \<in> set (take i ps)" if "i < length ps" "(u, ps ! i) \<in> set E" for i u
    using that unfolding kahn_inv_def by blast
  have cps: "c \<notin> set ps" "c \<notin> set q" "c \<in> set codes" using dist sub by auto
  have cnt: "count_list ?ns v = length (filter (\<lambda>e. (snd e = v \<and> fst e \<notin> set ps) \<and> fst e = c) E)"
    for v
  proof -
    have "(\<lambda>e. fst e = c \<and> snd e = v) = (\<lambda>e. (snd e = v \<and> fst e \<notin> set ps) \<and> fst e = c)"
      using cps(1) by auto
    then show ?thesis by (simp add: count_list_map_snd_filter)
  qed
  have split: "d v = int (count_list ?ns v)
                 + int (length (filter (\<lambda>e. (snd e = v \<and> fst e \<notin> set ps) \<and> fst e \<noteq> c) E))" for v
    unfolding dv cnt
    using length_filter_split[of "\<lambda>e. snd e = v \<and> fst e \<notin> set ps" E "\<lambda>e. fst e = c"] by simp
  have pre: "\<forall>v. int (count_list ?ns v) \<le> d v" using split by simp
  from relax_spec[OF pre r] obtain new where
    d': "d' = (\<lambda>v. d v - int (count_list ?ns v))" and q': "q' = q @ new" and dn: "distinct new"
    and sn: "set new = {v \<in> set ?ns. d v = int (count_list ?ns v)}" by blast
  have d'v: "d' v = int (length (filter (\<lambda>e. snd e = v \<and> fst e \<notin> set (ps @ [c])) E))" for v
  proof -
    have "(\<lambda>e. (snd e = v \<and> fst e \<notin> set ps) \<and> fst e \<noteq> c) = (\<lambda>e. snd e = v \<and> fst e \<notin> set (ps @ [c]))"
      by auto
    then show ?thesis using split[of v] d' by simp
  qed
  have d'nn: "0 \<le> d' v" for v using d'v by simp
  have d'le: "d' v \<le> d v" for v using d' by simp
  have newprop: "(v \<in> set new) = (v \<in> set ?ns \<and> d' v = 0)" for v using sn d' by auto
  have ns_codes: "set ?ns \<subseteq> set codes" using ok by auto
  have ns_pos: "0 < d v" if "v \<in> set ?ns" for v
  proof -
    from that have "count_list ?ns v \<noteq> 0" by (simp add: count_list_0_iff)
    then have "0 < int (count_list ?ns v)" by simp
    moreover from pre have "int (count_list ?ns v) \<le> d v" by blast
    ultimately show ?thesis by linarith
  qed
  have new_fresh: "v \<notin> set ps \<union> set (c # q)" if "v \<in> set new" for v
  proof -
    from that newprop have v: "v \<in> set ?ns" by simp
    with ns_codes have "v \<in> set codes" by blast
    from z[OF this] ns_pos[OF v] show ?thesis by simp
  qed
  show ?thesis unfolding kahn_inv_def
  proof (intro conjI)
    show "distinct ((ps @ [c]) @ q')" using dist dn new_fresh q' by auto
    show "set ((ps @ [c]) @ q') \<subseteq> set codes" using sub q' newprop ns_codes by auto
    show "\<forall>v. d' v = int (length (filter (\<lambda>e. snd e = v \<and> fst e \<notin> set (ps @ [c])) E))"
      using d'v by blast
    show "\<forall>v\<in>set codes. (d' v = 0) = (v \<in> set (ps @ [c]) \<union> set q')"
    proof
      fix v assume v: "v \<in> set codes"
      show "(d' v = 0) = (v \<in> set (ps @ [c]) \<union> set q')"
      proof
        assume d0: "d' v = 0"
        show "v \<in> set (ps @ [c]) \<union> set q'"
        proof (cases "v \<in> set ?ns")
          case True
          with d0 newprop q' show ?thesis by simp
        next
          case False
          then have "count_list ?ns v = 0" by (simp add: count_list_0_iff)
          with d' d0 have "d v = 0" by simp
          with z[OF v] q' show ?thesis by auto
        qed
      next
        assume "v \<in> set (ps @ [c]) \<union> set q'"
        then consider "v \<in> set ps \<union> set (c # q)" | "v \<in> set new" using q' by auto
        then show "d' v = 0"
        proof cases
          case 1
          with z[OF v] have "d v = 0" by simp
          with d'nn[of v] d'le[of v] show ?thesis by simp
        next
          case 2
          with newprop show ?thesis by simp
        qed
      qed
    qed
    show "\<forall>i<length (ps @ [c]). \<forall>u. (u, (ps @ [c]) ! i) \<in> set E \<longrightarrow> u \<in> set (take i (ps @ [c]))"
    proof (intro allI impI)
      fix i u assume i: "i < length (ps @ [c])" and e: "(u, (ps @ [c]) ! i) \<in> set E"
      show "u \<in> set (take i (ps @ [c]))"
      proof (cases "i < length ps")
        case True
        with e ord[of i u] show ?thesis by (simp add: nth_append)
      next
        case False
        with i have il: "i = length ps" by simp
        with e have ec: "(u, c) \<in> set E" by simp
        have "d c = 0" using z[OF cps(3)] by simp
        with dv[of c] have "filter (\<lambda>e. snd e = c \<and> fst e \<notin> set ps) E = []" by simp
        with ec have "u \<in> set ps" by (auto simp: filter_empty_conv)
        with il show ?thesis by simp
      qed
    qed
  qed
qed

lemma kahn_loop:
  "\<forall>u. dict_get g u = map snd (filter (\<lambda>e. fst e = u) E) \<Longrightarrow>
   \<forall>e\<in>set E. fst e \<in> set codes \<and> snd e \<in> set codes \<Longrightarrow>
   kahn_inv E codes ps q d \<Longrightarrow> cnt = int (length ps) \<Longrightarrow>
   \<exists>ps'. kahn_inv E codes ps' [] (fst (kahn g q d cnt)) \<and> snd (kahn g q d cnt) = int (length ps')"
proof (induction g q d cnt arbitrary: ps rule: kahn.induct)
  case (1 g in_degree sorted_count)
  then show ?case by auto
next
  case (2 g current queue in_degree sorted_count)
  obtain d' q' where r: "relax (dict_get g current) (in_degree, queue) = (d', q')"
    by (cases "relax (dict_get g current) (in_degree, queue)") auto
  with "2.prems"(1) have r': "relax (map snd (filter (\<lambda>e. fst e = current) E)) (in_degree, queue) = (d', q')"
    by simp
  from kahn_step[OF "2.prems"(3) "2.prems"(2) r']
  have inv': "kahn_inv E codes (ps @ [current]) q' d'" .
  have c: "sorted_count + 1 = int (length (ps @ [current]))" using "2.prems"(4) by simp
  from "2.IH"[OF r[symmetric] "2.prems"(1) "2.prems"(2) inv' c] r
  show ?case by simp
qed

lemma kahn_init:
  assumes "distinct codes"
    and "\<forall>v. d0 v = int (length (filter (\<lambda>e. snd e = v) E))"
  shows "kahn_inv E codes [] (filter (\<lambda>c. d0 c = 0) codes) d0"
  using assms by (simp add: kahn_inv_def)

lemma processed_order:
  assumes "\<forall>i<length ps. \<forall>u. (u, ps ! i) \<in> R \<longrightarrow> u \<in> set (take i ps)"
  shows "(x, y) \<in> R\<^sup>+ \<Longrightarrow> \<forall>j<length ps. y = ps ! j \<longrightarrow> (\<exists>i<j. x = ps ! i)"
proof (induction rule: trancl_induct)
  case (base y)
  show ?case
  proof (intro allI impI)
    fix j assume j: "j < length ps" and y: "y = ps ! j"
    with base assms have "x \<in> set (take j ps)" by blast
    then obtain i where "i < length (take j ps)" "take j ps ! i = x"
      by (auto simp: in_set_conv_nth)
    then show "\<exists>i<j. x = ps ! i" by auto
  qed
next
  case (step y z)
  show ?case
  proof (intro allI impI)
    fix j assume j: "j < length ps" and z: "z = ps ! j"
    with step.hyps(2) assms have "y \<in> set (take j ps)" by blast
    then obtain k where k: "k < length (take j ps)" "take j ps ! k = y"
      by (auto simp: in_set_conv_nth)
    then have kj: "k < j" and kl: "k < length ps" and yk: "y = ps ! k" using j by auto
    from step.IH kl yk obtain i where "i < k" "x = ps ! i" by blast
    with kj show "\<exists>i<j. x = ps ! i" by (intro exI[of _ i]) simp
  qed
qed

lemma kahn_unprocessed_has_requirement:
  assumes inv: "kahn_inv E codes ps [] d"
    and ok: "\<forall>e\<in>set E. fst e \<in> set codes \<and> snd e \<in> set codes"
    and v: "v \<in> set codes" "v \<notin> set ps"
  shows "0 < d v \<and> (\<exists>u. (u, v) \<in> set E \<and> u \<in> set codes \<and> u \<notin> set ps)"
proof -
  from inv have dv: "d v = int (length (filter (\<lambda>e. snd e = v \<and> fst e \<notin> set ps) E))"
    by (simp add: kahn_inv_def)
  from inv v have "d v \<noteq> 0" unfolding kahn_inv_def by auto
  with dv have pos: "0 < d v" and "filter (\<lambda>e. snd e = v \<and> fst e \<notin> set ps) E \<noteq> []" by auto
  then obtain e where "e \<in> set E" "snd e = v" "fst e \<notin> set ps"
    by (auto simp: filter_empty_conv)
  with ok have "(fst e, v) \<in> set E \<and> fst e \<in> set codes \<and> fst e \<notin> set ps" by auto
  with pos show ?thesis by blast
qed

lemma kahn_processed_all_iff:
  assumes inv: "kahn_inv E codes ps [] d"
    and ok: "\<forall>e\<in>set E. fst e \<in> set codes \<and> snd e \<in> set codes"
  shows "(set ps = set codes) = acyclic (set E)"
proof
  assume all: "set ps = set codes"
  from inv have dist: "distinct ps"
    and ord: "\<forall>i<length ps. \<forall>u. (u, ps ! i) \<in> set E \<longrightarrow> u \<in> set (take i ps)"
    by (simp_all add: kahn_inv_def)
  show "acyclic (set E)"
  proof (rule acyclicI, intro allI notI)
    fix x assume xx: "(x, x) \<in> (set E)\<^sup>+"
    then obtain z where "(z, x) \<in> set E" by (meson tranclE)
    with ok all have "x \<in> set ps" by auto
    then obtain j where j: "j < length ps" "x = ps ! j" by (auto simp: in_set_conv_nth)
    with processed_order[OF ord xx] obtain i where i: "i < j" "x = ps ! i" by blast
    with j dist show False by (simp add: nth_eq_iff_index_eq)
  qed
next
  assume ac: "acyclic (set E)"
  have "wf (set E)" using ac by (simp add: finite_acyclic_wf)
  from inv have sub: "set ps \<subseteq> set codes" by (simp add: kahn_inv_def)
  show "set ps = set codes"
  proof (rule ccontr)
    assume "set ps \<noteq> set codes"
    with sub obtain v where v: "v \<in> set codes - set ps" by auto
    from \<open>wf (set E)\<close> v obtain z where z: "z \<in> set codes - set ps"
      and min: "\<And>y. (y, z) \<in> set E \<Longrightarrow> y \<notin> set codes - set ps"
      by (rule wfE_min) blast
    from z kahn_unprocessed_has_requirement[OF inv ok, of z]
    obtain u where "(u, z) \<in> set E" "u \<in> set codes" "u \<notin> set ps" by auto
    with min show False by blast
  qed
qed

lemma kahn_unprocessed_from_cycle:
  assumes inv: "kahn_inv E codes ps [] d"
    and ok: "\<forall>e\<in>set E. fst e \<in> set codes \<and> snd e \<in> set codes"
    and v: "v \<in> set codes" "v \<notin> set ps"
  shows "\<exists>x. (x, x) \<in> (set E)\<^sup>+ \<and> (x, v) \<in> (set E)\<^sup>*"
proof (rule ccontr)
  assume no: "\<not> (\<exists>x. (x, x) \<in> (set E)\<^sup>+ \<and> (x, v) \<in> (set E)\<^sup>*)"
  define A where "A = {u \<in> set codes - set ps. (u, v) \<in> (set E)\<^sup>*}"
  define r where "r = {(a, b) \<in> set E. a \<in> A \<and> b \<in> A}"
  have rE: "r \<subseteq> set E" by (auto simp: r_def)
  then have fin: "finite r" by (rule finite_subset) simp
  have "acyclic r"
  proof (rule acyclicI, intro allI notI)
    fix x assume xx: "(x, x) \<in> r\<^sup>+"
    then obtain z where "(x, z) \<in> r" by (meson converse_tranclE)
    then have "x \<in> A" by (simp add: r_def)
    then have "(x, v) \<in> (set E)\<^sup>*" by (simp add: A_def)
    moreover from xx rE have "(x, x) \<in> (set E)\<^sup>+" by (rule trancl_mono)
    ultimately show False using no by blast
  qed
  with fin have "wf r" by (rule finite_acyclic_wf)
  moreover have "v \<in> A" using v by (simp add: A_def)
  ultimately obtain z where z: "z \<in> A" and min: "\<And>y. (y, z) \<in> r \<Longrightarrow> y \<notin> A"
    by (rule wfE_min) blast
  from z have zc: "z \<in> set codes" "z \<notin> set ps" and zv: "(z, v) \<in> (set E)\<^sup>*"
    by (simp_all add: A_def)
  from kahn_unprocessed_has_requirement[OF inv ok zc]
  obtain u where u: "(u, z) \<in> set E" "u \<in> set codes" "u \<notin> set ps" by auto
  from u(1) zv have "(u, v) \<in> (set E)\<^sup>*" by (rule converse_rtrancl_into_rtrancl)
  with u have "u \<in> A" by (simp add: A_def)
  with u(1) z have "(u, z) \<in> r" by (simp add: r_def)
  from min[OF this] \<open>u \<in> A\<close> show False by simp
qed

lemma requirement_edges_ok:
  assumes "codes_of codes pensum"
  shows "requirement_edges pensum = edges_from (set codes) (materias pensum)"
    and "\<forall>e\<in>set (requirement_edges pensum). fst e \<in> set codes \<and> snd e \<in> set codes"
  using assms by (auto simp: codes_of_def requirement_edges_def edges_from_def)

lemma detect_circular_dependencies_spec:
  assumes c: "codes_of codes pensum"
  obtains ps d where "kahn_inv (requirement_edges pensum) codes ps [] d"
    and "detect_circular_dependencies codes pensum
          = (if length ps \<noteq> length codes
             then (if filter (\<lambda>c. d c > 0) codes \<noteq> []
                   then Some (take 5 (filter (\<lambda>c. d c > 0) codes)) else None)
             else None)"
proof -
  let ?E = "requirement_edges pensum"
  obtain g d0 where b: "build_graph codes pensum = (g, d0)" by (cases "build_graph codes pensum")
  from graph_of_build_graph[of codes pensum] b requirement_edges_ok(1)[OF c]
  have go: "graph_of g d0 ?E" by simp
  then have g: "\<forall>u. dict_get g u = map snd (filter (\<lambda>e. fst e = u) ?E)"
    and d0: "\<forall>v. d0 v = int (length (filter (\<lambda>e. snd e = v) ?E))"
    by (simp_all add: graph_of_def)
  from c have dist: "distinct codes" by (simp add: codes_of_def)
  note ok = requirement_edges_ok(2)[OF c]
  have "int 0 = int (length ([] :: string list))" by simp
  then have z: "(0::int) = int (length ([] :: string list))" by simp
  from kahn_loop[OF g ok kahn_init[OF dist d0] z]
  obtain ps where inv: "kahn_inv ?E codes ps [] (fst (kahn g (filter (\<lambda>c. d0 c = 0) codes) d0 0))"
    and cnt: "snd (kahn g (filter (\<lambda>c. d0 c = 0) codes) d0 0) = int (length ps)" by blast
  obtain d n where k: "kahn g (filter (\<lambda>c. d0 c = 0) codes) d0 0 = (d, n)"
    by (cases "kahn g (filter (\<lambda>c. d0 c = 0) codes) d0 0")
  with inv cnt have inv': "kahn_inv ?E codes ps [] d" and n: "n = int (length ps)" by simp_all
  have "detect_circular_dependencies codes pensum
          = (if length ps \<noteq> length codes
             then (if filter (\<lambda>c. d c > 0) codes \<noteq> []
                   then Some (take 5 (filter (\<lambda>c. d c > 0) codes)) else None)
             else None)"
    by (simp add: detect_circular_dependencies_def b k n Let_def)
  with inv' show ?thesis by (rule that)
qed

text \<open>
  C6: cycle detection. Let the requirement graph of a catalog have an edge from a
  requirement to the course that names it as a prerequisite or a corequisite, between
  courses of the catalog; \<open>codes\<close> is the set of course codes in any iteration order.
  If the graph has no cycle, \<open>detect_circular_dependencies\<close> returns \<open>None\<close>. If it has
  a cycle, \<open>detect_circular_dependencies\<close> returns a non-empty list of at most 5
  different course codes, each of which lies on a cycle or depends, directly or
  transitively, on a course that lies on one (these are the nodes the topological sort
  cannot process), and \<open>validate_pensum_structure\<close> reports \<open>valid = False\<close> with that
  list in its errors. Both loops end on every input (termination of \<open>kahn\<close>).
\<close>
theorem kahn_detects_cycles:
  assumes "codes_of codes pensum"
  shows "(acyclic (set (requirement_edges pensum)) \<longrightarrow>
            detect_circular_dependencies codes pensum = None)
       \<and> (\<not> acyclic (set (requirement_edges pensum)) \<longrightarrow>
            (\<exists>cycle. detect_circular_dependencies codes pensum = Some cycle
               \<and> cycle \<noteq> [] \<and> length cycle \<le> 5 \<and> distinct cycle \<and> set cycle \<subseteq> set codes
               \<and> (\<forall>v\<in>set cycle. \<exists>x. (x, x) \<in> (set (requirement_edges pensum))\<^sup>+
                                      \<and> (x, v) \<in> (set (requirement_edges pensum))\<^sup>*)
               \<and> \<not> valid (validate_pensum_structure codes pensum)
               \<and> CircularDependency cycle
                    \<in> set (errors (validate_pensum_structure codes pensum))))"
proof -
  let ?E = "requirement_edges pensum"
  from assms obtain ps d where inv: "kahn_inv ?E codes ps [] d"
    and det: "detect_circular_dependencies codes pensum
          = (if length ps \<noteq> length codes
             then (if filter (\<lambda>c. d c > 0) codes \<noteq> []
                   then Some (take 5 (filter (\<lambda>c. d c > 0) codes)) else None)
             else None)"
    by (rule detect_circular_dependencies_spec)
  note ok = requirement_edges_ok(2)[OF assms]
  from assms have dc: "distinct codes" by (simp add: codes_of_def)
  from inv have dp: "distinct ps" and sub: "set ps \<subseteq> set codes" by (simp_all add: kahn_inv_def)
  have leneq: "(length ps = length codes) = (set ps = set codes)"
  proof
    assume "length ps = length codes"
    with dp dc have "card (set ps) = card (set codes)" by (simp add: distinct_card)
    with sub show "set ps = set codes" by (simp add: card_subset_eq)
  next
    assume "set ps = set codes"
    then have "card (set ps) = card (set codes)" by simp
    with dp dc show "length ps = length codes" by (simp add: distinct_card)
  qed
  have iff: "(length ps = length codes) = acyclic (set ?E)"
    unfolding leneq by (rule kahn_processed_all_iff[OF inv ok])
  have p1: "acyclic (set ?E) \<longrightarrow> detect_circular_dependencies codes pensum = None"
    using iff det by simp
  have p2: "\<not> acyclic (set ?E) \<longrightarrow>
            (\<exists>cycle. detect_circular_dependencies codes pensum = Some cycle
               \<and> cycle \<noteq> [] \<and> length cycle \<le> 5 \<and> distinct cycle \<and> set cycle \<subseteq> set codes
               \<and> (\<forall>v\<in>set cycle. \<exists>x. (x, x) \<in> (set ?E)\<^sup>+ \<and> (x, v) \<in> (set ?E)\<^sup>*)
               \<and> \<not> valid (validate_pensum_structure codes pensum)
               \<and> CircularDependency cycle
                    \<in> set (errors (validate_pensum_structure codes pensum)))"
  proof
    assume "\<not> acyclic (set ?E)"
    with iff leneq have ne: "length ps \<noteq> length codes" and "set ps \<noteq> set codes" by simp_all
    with sub obtain v where v: "v \<in> set codes" "v \<notin> set ps" by auto
    let ?rem = "filter (\<lambda>c. d c > 0) codes"
    from kahn_unprocessed_has_requirement[OF inv ok v] v(1) have "v \<in> set ?rem" by simp
    then have rem: "?rem \<noteq> []" by (metis empty_iff list.set(1))
    let ?cycle = "take 5 ?rem"
    from ne rem det have d1: "detect_circular_dependencies codes pensum = Some ?cycle" by simp
    have c1: "?cycle \<noteq> []" using rem by simp
    have c2: "length ?cycle \<le> 5" by simp
    have c3: "distinct ?cycle" using dc by simp
    have c4: "set ?cycle \<subseteq> set codes"
    proof
      fix x assume "x \<in> set ?cycle"
      then have "x \<in> set ?rem" by (rule in_set_takeD)
      then show "x \<in> set codes" by simp
    qed
    have c5: "\<forall>v\<in>set ?cycle. \<exists>x. (x, x) \<in> (set ?E)\<^sup>+ \<and> (x, v) \<in> (set ?E)\<^sup>*"
    proof
      fix w assume "w \<in> set ?cycle"
      then have "w \<in> set ?rem" by (rule in_set_takeD)
      then have w: "w \<in> set codes" and pos: "0 < d w" by simp_all
      have "w \<notin> set ps"
      proof
        assume "w \<in> set ps"
        with inv w have "d w = 0" unfolding kahn_inv_def by auto
        with pos show False by simp
      qed
      from kahn_unprocessed_from_cycle[OF inv ok w this]
      show "\<exists>x. (x, x) \<in> (set ?E)\<^sup>+ \<and> (x, w) \<in> (set ?E)\<^sup>*" .
    qed
    have c6: "\<not> valid (validate_pensum_structure codes pensum)"
      using d1 c1 by (simp add: validate_pensum_structure_def Let_def)
    have c7: "CircularDependency ?cycle \<in> set (errors (validate_pensum_structure codes pensum))"
      using d1 c1 by (simp add: validate_pensum_structure_def Let_def)
    from d1 c1 c2 c3 c4 c5 c6 c7
    show "\<exists>cycle. detect_circular_dependencies codes pensum = Some cycle
               \<and> cycle \<noteq> [] \<and> length cycle \<le> 5 \<and> distinct cycle \<and> set cycle \<subseteq> set codes
               \<and> (\<forall>v\<in>set cycle. \<exists>x. (x, x) \<in> (set ?E)\<^sup>+ \<and> (x, v) \<in> (set ?E)\<^sup>*)
               \<and> \<not> valid (validate_pensum_structure codes pensum)
               \<and> CircularDependency cycle
                    \<in> set (errors (validate_pensum_structure codes pensum))"
      by (intro exI[of _ ?cycle] conjI)
  qed
  from p1 p2 show ?thesis by (rule conjI)
qed

theorem kahn_detects_cycles_witness:
  "codes_of [''A'', ''B'', ''C''] ex_cycle
   \<and> detect_circular_dependencies [''A'', ''B'', ''C''] ex_cycle = Some [''A'', ''B'', ''C'']
   \<and> \<not> acyclic (set (requirement_edges ex_cycle))
   \<and> \<not> valid (validate_pensum_structure [''A'', ''B'', ''C''] ex_cycle)
   \<and> codes_of [''MATH1'', ''MATH2'', ''MATH3''] ex_chain
   \<and> detect_circular_dependencies [''MATH1'', ''MATH2'', ''MATH3''] ex_chain = None
   \<and> acyclic (set (requirement_edges ex_chain))
   \<and> valid (validate_pensum_structure [''MATH1'', ''MATH2'', ''MATH3''] ex_chain)"
proof -
  have a: "codes_of [''A'', ''B'', ''C''] ex_cycle" by code_simp
  have b: "detect_circular_dependencies [''A'', ''B'', ''C''] ex_cycle = Some [''A'', ''B'', ''C'']"
    by code_simp
  note t = kahn_detects_cycles[OF a]
  from t b have c: "\<not> acyclic (set (requirement_edges ex_cycle))" by auto
  with t have d: "\<not> valid (validate_pensum_structure [''A'', ''B'', ''C''] ex_cycle)" by blast
  have e: "codes_of [''MATH1'', ''MATH2'', ''MATH3''] ex_chain" by code_simp
  have f: "detect_circular_dependencies [''MATH1'', ''MATH2'', ''MATH3''] ex_chain = None"
    by code_simp
  note u = kahn_detects_cycles[OF e]
  from u f have g: "acyclic (set (requirement_edges ex_chain))" by auto
  have h: "valid (validate_pensum_structure [''MATH1'', ''MATH2'', ''MATH3''] ex_chain)"
    by code_simp
  from a b c d e f g h show ?thesis by (intro conjI)
qed

end
